theory Spec2Isabelle
  imports Complex_Main "HOL-Library.Sublist"
begin

section \<open>JavaScript numbers\<close>

text \<open>
  A JavaScript number is NaN, an infinity, or a finite double. A finite double is
  represented by the rational it denotes. \<open>to_double\<close> places an exact rational in
  the range of IEEE 754 binary64 under round-to-nearest-even: magnitudes from
  \<open>2^1024 - 2^970\<close> on become an infinity, magnitudes up to \<open>2^-1075\<close> become zero.
  Rounding of the mantissa inside the finite range is not modelled, and the sign of
  zero is not tracked.
\<close>

datatype jsnum = NaN | PosInf | NegInf | Fin rat

definition max_threshold :: rat where
  "max_threshold = 2 ^ 1024 - 2 ^ 970"

definition min_threshold :: rat where
  "min_threshold = 1 / 2 ^ 1075"

definition to_double :: "rat \<Rightarrow> jsnum" where
  "to_double q =
     (if max_threshold \<le> q then PosInf
      else if q \<le> - max_threshold then NegInf
      else if \<bar>q\<bar> \<le> min_threshold then Fin 0
      else Fin q)"

text \<open>\<open>Number.isFinite\<close>.\<close>

fun isFinite :: "jsnum \<Rightarrow> bool" where
  "isFinite (Fin q) = True"
| "isFinite _ = False"

text \<open>\<open>x > 0\<close> and \<open>x <= 0\<close>; every comparison with NaN is false.\<close>

fun gt_zero :: "jsnum \<Rightarrow> bool" where
  "gt_zero (Fin q) = (0 < q)"
| "gt_zero PosInf = True"
| "gt_zero _ = False"

fun le_zero :: "jsnum \<Rightarrow> bool" where
  "le_zero (Fin q) = (q \<le> 0)"
| "le_zero NegInf = True"
| "le_zero _ = False"

text \<open>Multiplication of a non-negative integer by a number (\<open>n * m\<close>).\<close>

fun times_nat :: "nat \<Rightarrow> jsnum \<Rightarrow> jsnum" where
  "times_nat n (Fin q) = to_double (of_nat n * q)"
| "times_nat n NaN = NaN"
| "times_nat n PosInf = (if n = 0 then NaN else PosInf)"
| "times_nat n NegInf = (if n = 0 then NaN else NegInf)"

section \<open>The Claude SSE writer (claude_writer.ts)\<close>

subsection \<open>Frames and parser events\<close>

datatype content_block =
    TextBlock
  | ThinkingBlock
  | ToolUseBlock string string

datatype delta =
    TextDelta string
  | ThinkingDelta string
  | SignatureDelta string
  | InputJsonDelta string

datatype stop_reason = ToolUse | EndTurn

datatype frame =
    MessageStart string nat
  | Ping
  | ContentBlockStart int content_block
  | ContentBlockDelta int delta
  | ContentBlockStop int
  | MessageDelta stop_reason int
  | MessageStop
  | ErrorFrame string

text \<open>
  \<open>ParsedInvokeCall\<close>: the tool name and its arguments. The arguments are kept in the
  type \<open>'a\<close>; \<open>JSON.stringify\<close> is a parameter of the writer.
\<close>

record 'a ParsedInvokeCall =
  name :: string
  arguments :: 'a

datatype 'a ParserEvent =
    Text string
  | Thinking string
  | ToolCall "'a ParsedInvokeCall"
  | ToolCallFailed string string
  | End

text \<open>
  What the writer takes from outside: the token counter of tiktoken.ts at
  \<open>cl100k_base\<close>, \<open>JSON.stringify\<close>, and the random tool identifiers, the
  \<open>k\<close>-th call of \<open>generateToolId\<close> returning \<open>toolIds k\<close>.
\<close>

record 'a deps =
  countTokensWithTiktoken :: "string \<Rightarrow> nat"
  stringify :: "'a \<Rightarrow> string"
  toolIds :: "nat \<Rightarrow> string"

text \<open>
  \<open>StreamContext\<close>, with the writer's output so far (\<open>sent\<close>), the text waiting in
  the aggregator (\<open>pending\<close>), the guarded token multiplier of the constructor and
  the number of tool identifiers drawn.
\<close>

record StreamContext =
  requestId :: string
  inputTokens :: nat
  tokenMultiplier :: jsnum
  nextBlockIndex :: int
  textBlockOpen :: bool
  thinkingBlockOpen :: bool
  finished :: bool
  totalOutputTokens :: nat
  hasToolCalls :: bool
  pending :: string
  idsDrawn :: nat
  sent :: "frame list"

definition send :: "frame \<Rightarrow> StreamContext \<Rightarrow> StreamContext" where
  "send f c = c\<lparr>sent := sent c @ [f]\<rparr>"

text \<open>The constructor: a multiplier that is not finite or not positive becomes 1.\<close>

definition new_ClaudeStream :: "jsnum \<Rightarrow> string \<Rightarrow> nat \<Rightarrow> StreamContext" where
  "new_ClaudeStream mult rid inTok =
     \<lparr> requestId = rid,
       inputTokens = inTok,
       tokenMultiplier = (if isFinite mult \<and> gt_zero mult then mult else Fin 1),
       nextBlockIndex = 0,
       textBlockOpen = False,
       thinkingBlockOpen = False,
       finished = False,
       totalOutputTokens = 0,
       hasToolCalls = False,
       pending = [],
       idsDrawn = 0,
       sent = [] \<rparr>"

definition init :: "StreamContext \<Rightarrow> StreamContext" where
  "init c = send Ping (send (MessageStart (''msg_'' @ requestId c) (inputTokens c)) c)"

definition ensureTextBlock :: "StreamContext \<Rightarrow> StreamContext" where
  "ensureTextBlock c =
     (if \<not> textBlockOpen c then
        send (ContentBlockStart (nextBlockIndex c) TextBlock)
          (c\<lparr>nextBlockIndex := nextBlockIndex c + 1, textBlockOpen := True\<rparr>)
      else c)"

definition flushText :: "'a deps \<Rightarrow> string \<Rightarrow> StreamContext \<Rightarrow> StreamContext" where
  "flushText d text c =
     (if text = [] then c
      else
        let c1 = ensureTextBlock c;
            c2 = c1\<lparr>totalOutputTokens := totalOutputTokens c1 + countTokensWithTiktoken d text\<rparr>
        in send (ContentBlockDelta (nextBlockIndex c2 - 1) (TextDelta text)) c2)"

definition endTextBlock :: "StreamContext \<Rightarrow> StreamContext" where
  "endTextBlock c =
     (if \<not> textBlockOpen c then c
      else send (ContentBlockStop (nextBlockIndex c - 1)) (c\<lparr>textBlockOpen := False\<rparr>))"

definition ensureThinkingBlock :: "StreamContext \<Rightarrow> StreamContext" where
  "ensureThinkingBlock c =
     (if \<not> thinkingBlockOpen c then
        send (ContentBlockStart (nextBlockIndex c) ThinkingBlock)
          (c\<lparr>nextBlockIndex := nextBlockIndex c + 1, thinkingBlockOpen := True\<rparr>)
      else c)"

definition endThinkingBlock :: "StreamContext \<Rightarrow> StreamContext" where
  "endThinkingBlock c =
     (if \<not> thinkingBlockOpen c then c
      else
        let c1 = c\<lparr>thinkingBlockOpen := False\<rparr>;
            index = nextBlockIndex c1 - 1
        in send (ContentBlockStop index)
             (send (ContentBlockDelta index (SignatureDelta [])) c1))"

text \<open>
  \<open>for (i = 0; i < s.length; i += 5) s.slice(i, i + 5)\<close>: the pieces of five
  characters, the last one shorter.
\<close>

function slices :: "string \<Rightarrow> string list" where
  "slices s = (if s = [] then [] else take 5 s # slices (drop 5 s))"
  by pat_completeness auto
termination
  by (relation "measure length") auto

declare slices.simps [simp del]

definition emitThinking :: "'a deps \<Rightarrow> string \<Rightarrow> StreamContext \<Rightarrow> StreamContext" where
  "emitThinking d content c =
     (if content = [] then c
      else
        let c1 = ensureThinkingBlock c;
            c2 = c1\<lparr>totalOutputTokens := totalOutputTokens c1 + countTokensWithTiktoken d content\<rparr>
        in foldl (\<lambda>s chunk. send (ContentBlockDelta (nextBlockIndex s - 1) (ThinkingDelta chunk)) s)
             c2 (slices content))"

definition emitToolCall :: "'a deps \<Rightarrow> 'a ParsedInvokeCall \<Rightarrow> StreamContext \<Rightarrow> StreamContext" where
  "emitToolCall d call c =
     (let c1 = endTextBlock c;
          index = nextBlockIndex c1;
          toolId = toolIds d (idsDrawn c1);
          c2 = c1\<lparr>nextBlockIndex := index + 1, idsDrawn := idsDrawn c1 + 1, hasToolCalls := True\<rparr>;
          c3 = send (ContentBlockStart index (ToolUseBlock toolId (name call))) c2;
          inputJson = stringify d (arguments call);
          c4 = c3\<lparr>totalOutputTokens := totalOutputTokens c3 + countTokensWithTiktoken d inputJson\<rparr>;
          c5 = foldl (\<lambda>s chunk. send (ContentBlockDelta index (InputJsonDelta chunk)) s)
                 c4 (slices inputJson)
      in send (ContentBlockStop index) c5)"

subsection \<open>The text aggregator\<close>

text \<open>
  Modelled from the spec: aggregator.ts (\<open>TextAggregator\<close>) is not among the sources.
  The spec gives it a pending string and a timer handle; \<open>add\<close> appends to the
  pending string, and a flush, forced (\<open>flushAsync\<close>) or by the timer, hands the
  pending text to the writer's \<open>flushText\<close> and empties it.
\<close>

definition aggregator_add :: "string \<Rightarrow> StreamContext \<Rightarrow> StreamContext" where
  "aggregator_add text c = c\<lparr>pending := pending c @ text\<rparr>"

definition flushAsync :: "'a deps \<Rightarrow> StreamContext \<Rightarrow> StreamContext" where
  "flushAsync d c = flushText d (pending c) (c\<lparr>pending := []\<rparr>)"

subsection \<open>finish and handleEvents\<close>

text \<open>
  \<open>Math.max(1, Math.ceil(Number.isFinite(raw) ? raw : total || 1))\<close> with
  \<open>raw = total * tokenMultiplier\<close>.
\<close>

definition adjustedOutputTokens :: "StreamContext \<Rightarrow> int" where
  "adjustedOutputTokens c =
     (let raw = times_nat (totalOutputTokens c) (tokenMultiplier c)
      in max 1 (case raw of
                  Fin q \<Rightarrow> \<lceil>q\<rceil>
                | _ \<Rightarrow> (if totalOutputTokens c = 0 then 1 else int (totalOutputTokens c))))"

definition finish :: "'a deps \<Rightarrow> StreamContext \<Rightarrow> StreamContext" where
  "finish d c =
     (if finished c then c
      else
        let c1 = c\<lparr>finished := True\<rparr>;
            c2 = flushAsync d c1;
            c3 = endTextBlock c2;
            c4 = endThinkingBlock c3;
            stopReason = (if hasToolCalls c4 then ToolUse else EndTurn);
            c5 = send (MessageDelta stopReason (adjustedOutputTokens c4)) c4
        in send MessageStop c5)"

fun handleEvent :: "'a deps \<Rightarrow> StreamContext \<Rightarrow> 'a ParserEvent \<Rightarrow> StreamContext" where
  "handleEvent d c (Text content) =
     aggregator_add content (if thinkingBlockOpen c then endThinkingBlock c else c)"
| "handleEvent d c (Thinking content) =
     emitThinking d content (endTextBlock (flushAsync d c))"
| "handleEvent d c (ToolCall call) =
     emitToolCall d call (endThinkingBlock (endTextBlock (flushAsync d c)))"
| "handleEvent d c End = finish d c"
| "handleEvent d c (ToolCallFailed content priorText) = c"

definition handleEvents :: "'a deps \<Rightarrow> 'a ParserEvent list \<Rightarrow> StreamContext \<Rightarrow> StreamContext" where
  "handleEvents d events c = foldl (handleEvent d) c events"

text \<open>
  What happens to one stream instance: a call of \<open>handleEvents\<close>, or the aggregator's
  timer firing between two calls. \<open>flushAsync\<close> precedes \<open>emitThinking\<close> and
  \<open>emitToolCall\<close>, so a timer firing during their pauses finds nothing pending.
\<close>

datatype 'a action = HandleEvents "'a ParserEvent list" | TimerFires

fun act :: "'a deps \<Rightarrow> StreamContext \<Rightarrow> 'a action \<Rightarrow> StreamContext" where
  "act d c (HandleEvents events) = handleEvents d events c"
| "act d c TimerFires = flushAsync d c"

definition run :: "'a deps \<Rightarrow> jsnum \<Rightarrow> string \<Rightarrow> nat \<Rightarrow> 'a action list \<Rightarrow> StreamContext" where
  "run d mult rid inTok acts = foldl (act d) (init (new_ClaudeStream mult rid inTok)) acts"

subsection \<open>Properties of frame sequences\<close>

text \<open>The indices of the \<open>content_block_start\<close> frames, in the order sent.\<close>

primrec start_indices :: "frame list \<Rightarrow> int list" where
  "start_indices [] = []"
| "start_indices (f # fs) =
     (case f of ContentBlockStart i b \<Rightarrow> i # start_indices fs | _ \<Rightarrow> start_indices fs)"

text \<open>
  \<open>track\<close> follows the blocks that are open: a start opens its index, a stop closes
  it. \<open>blocks_ok live fs\<close> reads \<open>fs\<close> from the left, starting with the open blocks
  \<open>live\<close>, and holds when every delta and every stop refers to a block open at
  that point.
\<close>

fun track :: "int list \<Rightarrow> frame \<Rightarrow> int list" where
  "track live (ContentBlockStart i b) = i # live"
| "track live (ContentBlockStop i) = removeAll i live"
| "track live f = live"

fun refers_to_open :: "int list \<Rightarrow> frame \<Rightarrow> bool" where
  "refers_to_open live (ContentBlockDelta i dl) = (i \<in> set live)"
| "refers_to_open live (ContentBlockStop i) = (i \<in> set live)"
| "refers_to_open live f = True"

fun blocks_ok :: "int list \<Rightarrow> frame list \<Rightarrow> bool" where
  "blocks_ok live [] = True"
| "blocks_ok live (f # fs) = (refers_to_open live f \<and> blocks_ok (track live f) fs)"

definition open_blocks :: "frame list \<Rightarrow> int list" where
  "open_blocks fs = foldl track [] fs"

text \<open>
  The invariant behind the block discipline: the started indices are \<open>0, 1, ...\<close> up
  to \<open>nextBlockIndex\<close>, at most one block is open, it is the last one started, and
  text waits in the aggregator only while no thinking block is open.
\<close>

definition writer_inv :: "StreamContext \<Rightarrow> bool" where
  "writer_inv c \<longleftrightarrow>
     0 \<le> nextBlockIndex c \<and>
     start_indices (sent c) = map int [0..<nat (nextBlockIndex c)] \<and>
     blocks_ok [] (sent c) \<and>
     open_blocks (sent c) =
       (if textBlockOpen c \<or> thinkingBlockOpen c then [nextBlockIndex c - 1] else []) \<and>
     \<not> (textBlockOpen c \<and> thinkingBlockOpen c) \<and>
     (textBlockOpen c \<or> thinkingBlockOpen c \<longrightarrow> 0 < nextBlockIndex c) \<and>
     (pending c \<noteq> [] \<longrightarrow> \<not> thinkingBlockOpen c)"

fun is_tool_use_start :: "frame \<Rightarrow> bool" where
  "is_tool_use_start (ContentBlockStart i (ToolUseBlock tid nm)) = True"
| "is_tool_use_start f = False"

definition tool_use_emitted :: "frame list \<Rightarrow> bool" where
  "tool_use_emitted fs = list_ex is_tool_use_start fs"

text \<open>
  \<open>stop_reasons_ok seen fs\<close>: each \<open>message_delta\<close> in \<open>fs\<close> says \<open>tool_use\<close>
  exactly when a tool_use block was started before it (\<open>seen\<close> for what came
  before \<open>fs\<close>).
\<close>

fun stop_reasons_ok :: "bool \<Rightarrow> frame list \<Rightarrow> bool" where
  "stop_reasons_ok seen [] = True"
| "stop_reasons_ok seen (MessageDelta r n # fs) =
     ((r = ToolUse) = seen \<and> stop_reasons_ok seen fs)"
| "stop_reasons_ok seen (f # fs) = stop_reasons_ok (seen \<or> is_tool_use_start f) fs"

fun is_closing :: "frame \<Rightarrow> bool" where
  "is_closing (MessageDelta r n) = True"
| "is_closing MessageStop = True"
| "is_closing f = False"

fun is_message_delta :: "frame \<Rightarrow> bool" where
  "is_message_delta (MessageDelta r n) = True"
| "is_message_delta f = False"

definition closing_frames :: "frame list \<Rightarrow> frame list" where
  "closing_frames fs = filter is_closing fs"

definition inv_close :: "StreamContext \<Rightarrow> bool" where
  "inv_close c \<longleftrightarrow>
     hasToolCalls c = tool_use_emitted (sent c) \<and>
     stop_reasons_ok False (sent c) \<and>
     (finished c \<longrightarrow> (\<exists>r n. filter is_closing (sent c) = [MessageDelta r n, MessageStop])) \<and>
     (\<not> finished c \<longrightarrow> filter is_closing (sent c) = [])"

text \<open>\<open>c'\<close> has the frames of \<open>c\<close> and then frames that close no message.\<close>

definition appends_blocks :: "StreamContext \<Rightarrow> StreamContext \<Rightarrow> bool" where
  "appends_blocks c c' \<longleftrightarrow> (\<exists>gs. sent c' = sent c @ gs \<and> closing_frames gs = [])"







subsection \<open>A worked response\<close>

definition example_deps :: "string deps" where
  "example_deps =
     \<lparr> countTokensWithTiktoken = length, stringify = (\<lambda>x. x), toolIds = (\<lambda>k. ''toolu_A'') \<rparr>"

definition example_acts :: "string action list" where
  "example_acts =
     [HandleEvents [Thinking ''weighing''], HandleEvents [Text ''Answer: 4''], TimerFires,
      HandleEvents [ToolCall \<lparr>name = ''get_weather'', arguments = ''{}''\<rparr>, End]]"

section \<open>Configuration (config.ts)\<close>

subsection \<open>JavaScript strings\<close>

text \<open>
  A string is a list of characters with codes below 256. White space, as
  \<open>trim\<close> and \<open>parseFloat\<close> skip it, is then tab, line feed, vertical tab, form
  feed, carriage return, space and no-break space.
\<close>

definition is_space :: "char \<Rightarrow> bool" where
  "is_space c \<longleftrightarrow> of_char c \<in> {9, 10, 11, 12, 13, 32, 160 :: nat}"

definition trim :: "string \<Rightarrow> string" where
  "trim s = rev (dropWhile is_space (rev (dropWhile is_space s)))"

definition startsWith :: "string \<Rightarrow> string \<Rightarrow> bool" where
  "startsWith s p \<longleftrightarrow> take (length p) s = p"

definition endsWith :: "string \<Rightarrow> string \<Rightarrow> bool" where
  "endsWith s p \<longleftrightarrow> length p \<le> length s \<and> drop (length s - length p) s = p"

text \<open>\<open>s.slice(a, b)\<close>; a negative index counts from the end.\<close>

definition slice_index :: "nat \<Rightarrow> int \<Rightarrow> nat" where
  "slice_index n a = (if a < 0 then nat (max (int n + a) 0) else min (nat a) n)"

definition slice :: "string \<Rightarrow> int \<Rightarrow> int \<Rightarrow> string" where
  "slice s a b =
     (let from = slice_index (length s) a; to = slice_index (length s) b
      in take (to - from) (drop from s))"

text \<open>\<open>s.slice(a)\<close>.\<close>

definition slice_from :: "string \<Rightarrow> int \<Rightarrow> string" where
  "slice_from s a = drop (slice_index (length s) a) s"

definition lower_char :: "char \<Rightarrow> char" where
  "lower_char c =
     (let n = (of_char c :: nat)
      in if (65 \<le> n \<and> n \<le> 90) \<or> (192 \<le> n \<and> n \<le> 222 \<and> n \<noteq> 215)
         then char_of (n + 32) else c)"

definition toLowerCase :: "string \<Rightarrow> string" where
  "toLowerCase s = map lower_char s"

text \<open>\<open>s.indexOf(c)\<close>: the first position of \<open>c\<close>, or -1.\<close>

primrec indexOf :: "string \<Rightarrow> char \<Rightarrow> int" where
  "indexOf [] c = - 1"
| "indexOf (x # xs) c =
     (if x = c then 0 else (let i = indexOf xs c in if i = - 1 then - 1 else i + 1))"

text \<open>\<open>!v\<close> for an optional string: undefined and the empty string are falsy.\<close>

fun truthy :: "string option \<Rightarrow> bool" where
  "truthy None = False"
| "truthy (Some s) = (s \<noteq> [])"

subsection \<open>parseFloat\<close>

text \<open>
  \<open>parseFloat\<close> skips leading white space and reads the longest prefix that is a
  decimal literal: an optional sign, then \<open>Infinity\<close>, or digits with an optional
  fraction and an optional exponent. No such prefix gives NaN.
\<close>

definition is_digit :: "char \<Rightarrow> bool" where
  "is_digit c \<longleftrightarrow> 48 \<le> (of_char c :: nat) \<and> (of_char c :: nat) \<le> 57"

definition digits_value :: "string \<Rightarrow> nat" where
  "digits_value ds = foldl (\<lambda>a c. 10 * a + (of_char c - 48)) 0 ds"

text \<open>The exponent part: \<open>e\<close> or \<open>E\<close>, an optional sign, at least one digit.\<close>

definition exponent_part :: "string \<Rightarrow> int" where
  "exponent_part r =
     (case r of
        [] \<Rightarrow> 0
      | c # r1 \<Rightarrow>
          if c = CHR ''e'' \<or> c = CHR ''E'' then
            (case r1 of
               [] \<Rightarrow> 0
             | s # r2 \<Rightarrow>
                 if s = CHR ''-'' then
                   (if takeWhile is_digit r2 = [] then 0
                    else - int (digits_value (takeWhile is_digit r2)))
                 else if s = CHR ''+'' then int (digits_value (takeWhile is_digit r2))
                 else int (digits_value (takeWhile is_digit r1)))
          else 0)"

definition pow10 :: "int \<Rightarrow> rat" where
  "pow10 e = (if 0 \<le> e then 10 ^ nat e else 1 / 10 ^ nat (- e))"

definition unsigned_literal :: "string \<Rightarrow> jsnum" where
  "unsigned_literal u =
     (if startsWith u ''Infinity'' then PosInf
      else
        let ip = takeWhile is_digit u;
            r1 = dropWhile is_digit u;
            fp = (case r1 of [] \<Rightarrow> [] | c # r \<Rightarrow> if c = CHR ''.'' then takeWhile is_digit r else []);
            r2 = (case r1 of [] \<Rightarrow> [] | c # r \<Rightarrow> if c = CHR ''.'' then dropWhile is_digit r else r1)
        in if ip = [] \<and> fp = [] then NaN
           else to_double (of_nat (digits_value (ip @ fp)) / 10 ^ length fp * pow10 (exponent_part r2)))"

fun negate :: "jsnum \<Rightarrow> jsnum" where
  "negate NaN = NaN"
| "negate PosInf = NegInf"
| "negate NegInf = PosInf"
| "negate (Fin q) = Fin (- q)"

definition parseFloat :: "string \<Rightarrow> jsnum" where
  "parseFloat s =
     (case dropWhile is_space s of
        [] \<Rightarrow> NaN
      | c # u \<Rightarrow>
          if c = CHR ''-'' then negate (unsigned_literal u)
          else if c = CHR ''+'' then unsigned_literal u
          else unsigned_literal (c # u))"

text \<open>\<open>num / 100\<close> for a finite \<open>num\<close>.\<close>

fun divide_by :: "jsnum \<Rightarrow> rat \<Rightarrow> jsnum" where
  "divide_by (Fin q) k = to_double (q / k)"
| "divide_by x k = x"

subsection \<open>parseTokenMultiplier\<close>

text \<open>The three steps of \<open>parseTokenMultiplier\<close> between its returns.\<close>

definition unquote :: "string \<Rightarrow> string" where
  "unquote s =
     (if (startsWith s ''\"'' \<and> endsWith s ''\"'') \<or>
         (startsWith s [CHR 0x27] \<and> endsWith s [CHR 0x27])
      then trim (slice s 1 (- 1)) else s)"

definition percent_value :: "string \<Rightarrow> jsnum option" where
  "percent_value s =
     (if endsWith s ''%'' then
        (let num = parseFloat (slice s 0 (- 1))
         in if isFinite num \<and> gt_zero num then Some (divide_by num 100) else None)
      else None)"

definition strip_x :: "string \<Rightarrow> string" where
  "strip_x s =
     (if endsWith (toLowerCase s) ''x'' then trim (slice s 0 (- 1))
      else if startsWith (toLowerCase s) ''x'' then trim (slice_from s 1)
      else s)"

definition parseTokenMultiplier :: "string option \<Rightarrow> jsnum" where
  "parseTokenMultiplier raw =
     (case raw of
        None \<Rightarrow> Fin 1
      | Some r \<Rightarrow>
          if r = [] then Fin 1
          else
            let s = trim r
            in if s = [] then Fin 1
               else
                 let s1 = unquote s
                 in (case percent_value s1 of
                       Some v \<Rightarrow> v
                     | None \<Rightarrow>
                         let num = parseFloat (strip_x s1)
                         in if \<not> isFinite num \<or> le_zero num then Fin 1 else num))"

subsection \<open>The configuration records\<close>

datatype Protocol = OpenAI | Anthropic | Gemini

text \<open>
  \<open>ChannelConfig\<close>, with the optional \<open>protocol\<close> that request_context.ts reads.
  Its fields carry the prefix \<open>ch_\<close>, those of the resolved \<open>UpstreamConfig\<close> of
  ai_client/types.ts the prefix \<open>r_\<close>; \<open>UpstreamConfig\<close> of config.ts keeps its
  names.
\<close>

record ChannelConfig =
  ch_name :: string
  ch_baseUrl :: string
  ch_apiKey :: "string option"
  ch_protocol :: "Protocol option"

record UpstreamConfig =
  baseUrl :: string
  apiKey :: "string option"
  requestModel :: string
  nameModel :: string

text \<open>
  \<open>ProxyConfig\<close> of config.ts, with the \<open>defaultProtocol\<close> that request_context.ts
  reads (undefined in what \<open>loadConfig\<close> of config.ts returns).
\<close>

record ProxyConfig =
  port :: jsnum
  host :: string
  upstreamConfigs :: "UpstreamConfig list"
  channelConfigs :: "ChannelConfig list"
  upstreamBaseUrl :: "string option"
  upstreamApiKey :: "string option"
  upstreamModelOverride :: "string option"
  clientApiKey :: "string option"
  requestTimeoutMs :: jsnum
  aggregationIntervalMs :: jsnum
  maxRequestsPerMinute :: jsnum
  cfg_tokenMultiplier :: jsnum
  autoPort :: bool
  passthroughApiKey :: bool
  defaultProtocol :: "Protocol option"

record ResolvedUpstream =
  r_baseUrl :: "string option"
  r_apiKey :: "string option"
  r_model :: string
  r_protocol :: "Protocol option"

subsection \<open>Loading the configuration\<close>

text \<open>
  The environment is a finite list of variables with their values;
  \<open>Deno.env.get\<close> looks a name up.
\<close>

type_synonym environment = "(string \<times> string) list"

definition env_get :: "environment \<Rightarrow> string \<Rightarrow> string option" where
  "env_get env k = map_of env k"

text \<open>The decimal digits of \<open>i\<close>, as a template literal writes them.\<close>

fun decimal :: "nat \<Rightarrow> string" where
  "decimal n =
     (if n < 10 then [char_of (48 + n)]
      else decimal (n div 10) @ [char_of (48 + n mod 10)])"

declare decimal.simps [simp del]

definition channel_key :: "nat \<Rightarrow> string \<Rightarrow> string" where
  "channel_key i field = ''CHANNEL_'' @ decimal i @ ''_'' @ field"

definition upstream_key :: "nat \<Rightarrow> string \<Rightarrow> string" where
  "upstream_key i field = ''UPSTREAM_CONFIG_'' @ decimal i @ ''_'' @ field"

text \<open>How many variables of the environment are named \<open>key j\<close> for some \<open>j \<ge> i\<close>.\<close>

definition keys_from :: "(nat \<Rightarrow> string) \<Rightarrow> environment \<Rightarrow> nat \<Rightarrow> nat" where
  "keys_from key env i = card {j. i \<le> j \<and> key j \<in> fst ` set env}"

text \<open>
  \<open>decimal\<close> is injective, so a scan over \<open>i = 1, 2, ...\<close> that goes on only while
  variable \<open>i\<close> is set ends: each step leaves fewer variables ahead.
\<close>

lemma decimal_nonempty: "decimal n \<noteq> []"
  by (subst decimal.simps) simp

lemma digit_char_inj: "a < 10 \<Longrightarrow> b < 10 \<Longrightarrow> char_of (48 + a :: nat) = char_of (48 + b) \<Longrightarrow> a = b"
proof -
  assume a: "a < 10" and b: "b < 10" and e: "char_of (48 + a :: nat) = char_of (48 + b)"
  have "of_char (char_of (48 + a :: nat)) = (48 + a :: nat)" using a by (simp add: of_char_of)
  moreover have "of_char (char_of (48 + b :: nat)) = (48 + b :: nat)" using b by (simp add: of_char_of)
  ultimately show "a = b" using e by simp
qed

lemma decimal_inj: "decimal n = decimal m \<Longrightarrow> n = m"
proof (induction n arbitrary: m rule: decimal.induct)
  case (1 n)
  show ?case
  proof (cases "n < 10")
    case True
    then have dn: "decimal n = [char_of (48 + n)]" by (subst decimal.simps) simp
    show ?thesis
    proof (cases "m < 10")
      case mt: True
      then have "decimal m = [char_of (48 + m)]" by (subst decimal.simps) simp
      with dn "1.prems" True mt show ?thesis using digit_char_inj by simp
    next
      case mf: False
      then have "decimal m = decimal (m div 10) @ [char_of (48 + m mod 10)]"
        by (subst decimal.simps) simp
      with dn "1.prems" decimal_nonempty [of "m div 10"] show ?thesis by simp
    qed
  next
    case False
    then have dn: "decimal n = decimal (n div 10) @ [char_of (48 + n mod 10)]"
      by (subst decimal.simps) simp
    show ?thesis
    proof (cases "m < 10")
      case mt: True
      then have "decimal m = [char_of (48 + m)]" by (subst decimal.simps) simp
      with dn "1.prems" decimal_nonempty [of "n div 10"] show ?thesis by simp
    next
      case mf: False
      then have dm: "decimal m = decimal (m div 10) @ [char_of (48 + m mod 10)]"
        by (subst decimal.simps) simp
      from dn dm "1.prems" have e1: "decimal (n div 10) = decimal (m div 10)"
        and e2: "char_of (48 + n mod 10) = char_of (48 + m mod 10)" by simp_all
      from "1.IH" [OF False e1] have "n div 10 = m div 10" .
      moreover from e2 have "n mod 10 = m mod 10"
        using digit_char_inj [of "n mod 10" "m mod 10"] by simp
      ultimately show ?thesis by (metis div_mult_mod_eq)
    qed
  qed
qed

lemma channel_key_inj: "inj (\<lambda>i. channel_key i field)"
  by (rule injI) (simp add: channel_key_def decimal_inj)

lemma upstream_key_inj: "inj (\<lambda>i. upstream_key i field)"
  by (rule injI) (simp add: upstream_key_def decimal_inj)

lemma keys_from_decreases:
  assumes "inj key" "key i \<in> fst ` set env"
  shows "keys_from key env (Suc i) < keys_from key env i"
proof -
  have f: "finite {j. key j \<in> fst ` set env}"
    using finite_vimageI [OF _ assms(1), of "fst ` set env"] by (simp add: vimage_def)
  have "finite {j. i \<le> j \<and> key j \<in> fst ` set env}"
    by (rule finite_subset [OF _ f]) auto
  moreover have "{j. Suc i \<le> j \<and> key j \<in> fst ` set env} \<subset> {j. i \<le> j \<and> key j \<in> fst ` set env}"
  proof (rule psubsetI)
    show "{j. Suc i \<le> j \<and> key j \<in> fst ` set env} \<subseteq> {j. i \<le> j \<and> key j \<in> fst ` set env}"
      by auto
    have "i \<in> {j. i \<le> j \<and> key j \<in> fst ` set env}" using assms(2) by simp
    moreover have "i \<notin> {j. Suc i \<le> j \<and> key j \<in> fst ` set env}" by simp
    ultimately show "{j. Suc i \<le> j \<and> key j \<in> fst ` set env} \<noteq> {j. i \<le> j \<and> key j \<in> fst ` set env}"
      by blast
  qed
  ultimately show ?thesis unfolding keys_from_def by (rule psubset_card_mono)
qed

lemma truthy_env_in: "truthy (env_get env k) \<Longrightarrow> k \<in> fst ` set env"
  by (cases "env_get env k") (auto simp add: env_get_def dest: map_of_SomeD intro: rev_image_eqI)

datatype config_error =
    UpstreamBaseUrlMissing
  | NoUpstreamConfiguration string

function loadChannelConfigs_loop ::
    "environment \<Rightarrow> nat \<Rightarrow> ChannelConfig list \<Rightarrow> ChannelConfig list" where
  "loadChannelConfigs_loop env i configs =
     (case env_get env (channel_key i ''NAME'') of
        None \<Rightarrow> configs
      | Some nm \<Rightarrow>
          (case env_get env (channel_key i ''BASE_URL'') of
             None \<Rightarrow> configs
           | Some bu \<Rightarrow>
               if nm = [] \<or> bu = [] then configs
               else loadChannelConfigs_loop env (i + 1)
                      (configs @ [\<lparr> ch_name = nm, ch_baseUrl = bu,
                                    ch_apiKey = env_get env (channel_key i ''API_KEY''),
                                    ch_protocol = None \<rparr>])))"
  by pat_completeness auto
termination
proof (relation "measure (\<lambda>(env, i, configs). keys_from (\<lambda>j. channel_key j ''NAME'') env i)")
  show "wf (measure (\<lambda>(env, i, configs). keys_from (\<lambda>j. channel_key j ''NAME'') env i))"
    by simp
next
  fix env :: environment and i :: nat and configs :: "ChannelConfig list"
    and nm bu :: string
  assume "env_get env (channel_key i ''NAME'') = Some nm" "\<not> (nm = [] \<or> bu = [])"
  then have "channel_key i ''NAME'' \<in> fst ` set env"
    using truthy_env_in [of env "channel_key i ''NAME''"] by simp
  from keys_from_decreases [OF channel_key_inj this]
  show "((env, i + 1, configs @ [\<lparr> ch_name = nm, ch_baseUrl = bu,
            ch_apiKey = env_get env (channel_key i ''API_KEY''), ch_protocol = None \<rparr>]),
         (env, i, configs))
        \<in> measure (\<lambda>(env, i, configs). keys_from (\<lambda>j. channel_key j ''NAME'') env i)"
    by simp
qed

declare loadChannelConfigs_loop.simps [simp del]

definition loadChannelConfigs :: "environment \<Rightarrow> ChannelConfig list" where
  "loadChannelConfigs env = loadChannelConfigs_loop env 1 []"

function loadUpstreamConfigs_loop ::
    "environment \<Rightarrow> nat \<Rightarrow> UpstreamConfig list \<Rightarrow> UpstreamConfig list" where
  "loadUpstreamConfigs_loop env i configs =
     (case env_get env (upstream_key i ''BASE_URL'') of
        None \<Rightarrow> configs
      | Some bu \<Rightarrow>
          (case env_get env (upstream_key i ''REQUEST_MODEL'') of
             None \<Rightarrow> configs
           | Some rm \<Rightarrow>
               (case env_get env (upstream_key i ''NAME_MODEL'') of
                  None \<Rightarrow> configs
                | Some nm \<Rightarrow>
                    if bu = [] \<or> rm = [] \<or> nm = [] then configs
                    else loadUpstreamConfigs_loop env (i + 1)
                           (configs @ [\<lparr> baseUrl = bu,
                                         apiKey = env_get env (upstream_key i ''API_KEY''),
                                         requestModel = rm, nameModel = nm \<rparr>]))))"
  by pat_completeness auto
termination
proof (relation "measure (\<lambda>(env, i, configs). keys_from (\<lambda>j. upstream_key j ''BASE_URL'') env i)")
  show "wf (measure (\<lambda>(env, i, configs). keys_from (\<lambda>j. upstream_key j ''BASE_URL'') env i))"
    by simp
next
  fix env :: environment and i :: nat and configs :: "UpstreamConfig list"
    and bu rm nm :: string
  assume "env_get env (upstream_key i ''BASE_URL'') = Some bu" "\<not> (bu = [] \<or> rm = [] \<or> nm = [])"
  then have "upstream_key i ''BASE_URL'' \<in> fst ` set env"
    using truthy_env_in [of env "upstream_key i ''BASE_URL''"] by simp
  from keys_from_decreases [OF upstream_key_inj this]
  show "((env, i + 1, configs @ [\<lparr> baseUrl = bu,
            apiKey = env_get env (upstream_key i ''API_KEY''),
            requestModel = rm, nameModel = nm \<rparr>]),
         (env, i, configs))
        \<in> measure (\<lambda>(env, i, configs). keys_from (\<lambda>j. upstream_key j ''BASE_URL'') env i)"
    by simp
qed

declare loadUpstreamConfigs_loop.simps [simp del]

definition loadUpstreamConfigs :: "environment \<Rightarrow> UpstreamConfig list" where
  "loadUpstreamConfigs env = loadUpstreamConfigs_loop env 1 []"

text \<open>\<open>a ?? b\<close>.\<close>

definition or_default :: "'a option \<Rightarrow> 'a \<Rightarrow> 'a" where
  "or_default a b = (case a of None \<Rightarrow> b | Some v \<Rightarrow> v)"

text \<open>
  \<open>loadConfig\<close>. \<open>Number\<close>, applied to the port, the timeout, the aggregation
  interval and the rate limit, is the parameter \<open>toNumber\<close>.
\<close>

definition loadConfig :: "(string \<Rightarrow> jsnum) \<Rightarrow> environment \<Rightarrow> config_error + ProxyConfig" where
  "loadConfig toNumber env =
     (let autoPort' = (env_get env ''AUTO_PORT'' = Some ''true'');
          port' = (if autoPort' then Fin 0
                   else toNumber (or_default (env_get env ''PORT'') ''3456''));
          host' = or_default (env_get env ''HOST'') ''0.0.0.0'';
          clientApiKey' = env_get env ''CLIENT_API_KEY'';
          requestTimeoutMs' = toNumber (or_default (env_get env ''TIMEOUT_MS'') ''120000'');
          aggregationIntervalMs' =
            toNumber (or_default (env_get env ''AGGREGATION_INTERVAL_MS'') ''35'');
          maxRequestsPerMinute' =
            toNumber (or_default (env_get env ''MAX_REQUESTS_PER_MINUTE'') ''10'');
          tokenMultiplier' = parseTokenMultiplier (env_get env ''TOKEN_MULTIPLIER'');
          passthroughApiKey' = (env_get env ''PASSTHROUGH_API_KEY'' = Some ''true'');
          channelConfigs' = loadChannelConfigs env;
          upstreamConfigs' = loadUpstreamConfigs env;
          config = \<lparr> port = port', host = host', upstreamConfigs = upstreamConfigs',
                     channelConfigs = channelConfigs', upstreamBaseUrl = None,
                     upstreamApiKey = None, upstreamModelOverride = None,
                     clientApiKey = clientApiKey', requestTimeoutMs = requestTimeoutMs',
                     aggregationIntervalMs = aggregationIntervalMs',
                     maxRequestsPerMinute = maxRequestsPerMinute',
                     cfg_tokenMultiplier = tokenMultiplier', autoPort = autoPort',
                     passthroughApiKey = passthroughApiKey', defaultProtocol = None \<rparr>
      in if upstreamConfigs' = [] then
           (let upstreamBaseUrl' =
                  or_default (env_get env ''UPSTREAM_BASE_URL'')
                    ''http://127.0.0.1:8000/v1/chat/completions''
            in if upstreamBaseUrl' = [] then Inl UpstreamBaseUrlMissing
               else Inr (config\<lparr> upstreamBaseUrl := Some upstreamBaseUrl',
                                  upstreamApiKey := env_get env ''UPSTREAM_API_KEY'',
                                  upstreamModelOverride := env_get env ''UPSTREAM_MODEL'' \<rparr>))
         else Inr config)"

section \<open>Channel resolution\<close>

subsection \<open>selectUpstreamConfig and callUpstream (upstream.ts)\<close>

definition parseChannelModel :: "string \<Rightarrow> (string \<times> string) option" where
  "parseChannelModel clientModel =
     (let plusIndex = indexOf clientModel CHR ''+''
      in if plusIndex = - 1 then None
         else Some (slice clientModel 0 plusIndex, slice_from clientModel (plusIndex + 1)))"

definition selectUpstreamConfig :: "ProxyConfig \<Rightarrow> string \<Rightarrow> config_error + UpstreamConfig" where
  "selectUpstreamConfig config clientModel =
     (let channelHit =
            (case parseChannelModel clientModel of
               None \<Rightarrow> None
             | Some (channelName, modelName) \<Rightarrow>
                 (case find (\<lambda>c. ch_name c = channelName) (channelConfigs config) of
                    None \<Rightarrow> None
                  | Some channel \<Rightarrow>
                      Some \<lparr> baseUrl = ch_baseUrl channel, apiKey = ch_apiKey channel,
                             requestModel = modelName, nameModel = clientModel \<rparr>))
      in case channelHit of
           Some u \<Rightarrow> Inr u
         | None \<Rightarrow>
             (case find (\<lambda>u. nameModel u = clientModel) (upstreamConfigs config) of
                Some u \<Rightarrow> Inr u
              | None \<Rightarrow>
                  (case upstreamBaseUrl config of
                     None \<Rightarrow> Inl (NoUpstreamConfiguration clientModel)
                   | Some b \<Rightarrow>
                       if b = [] then Inl (NoUpstreamConfiguration clientModel)
                       else Inr \<lparr> baseUrl = b, apiKey = upstreamApiKey config,
                                  requestModel =
                                    or_default (upstreamModelOverride config) clientModel,
                                  nameModel = clientModel \<rparr>)))"



subsection \<open>RequestContext.parseChannelInfo (request_context.ts)\<close>

definition parseChannelInfo :: "string \<Rightarrow> ProxyConfig \<Rightarrow> string option \<Rightarrow> ResolvedUpstream" where
  "parseChannelInfo modelName config clientKey =
     (let plusIndex = indexOf modelName CHR ''+'';
          resolved =
            (if plusIndex \<noteq> - 1 then
               (let channelName = slice modelName 0 plusIndex;
                    actualModel = slice_from modelName (plusIndex + 1)
                in case find (\<lambda>c. ch_name c = channelName) (channelConfigs config) of
                     Some channel \<Rightarrow>
                       \<lparr> r_baseUrl = Some (ch_baseUrl channel), r_apiKey = ch_apiKey channel,
                         r_model = actualModel,
                         r_protocol = (case ch_protocol channel of
                                         None \<Rightarrow> defaultProtocol config | Some p \<Rightarrow> Some p) \<rparr>
                   | None \<Rightarrow>
                       \<lparr> r_baseUrl = upstreamBaseUrl config, r_apiKey = upstreamApiKey config,
                         r_model = modelName, r_protocol = defaultProtocol config \<rparr>)
             else
               (case channelConfigs config of
                  channel # rest \<Rightarrow>
                    \<lparr> r_baseUrl = Some (ch_baseUrl channel), r_apiKey = ch_apiKey channel,
                      r_model = modelName,
                      r_protocol = (case ch_protocol channel of
                                      None \<Rightarrow> defaultProtocol config | Some p \<Rightarrow> Some p) \<rparr>
                | [] \<Rightarrow>
                    \<lparr> r_baseUrl = upstreamBaseUrl config, r_apiKey = upstreamApiKey config,
                      r_model = or_default (upstreamModelOverride config) modelName,
                      r_protocol = defaultProtocol config \<rparr>))
      in if passthroughApiKey config \<and> truthy clientKey
         then resolved\<lparr> r_apiKey := clientKey \<rparr> else resolved)"



subsection \<open>Names for the statements about resolution\<close>

text \<open>The legacy upstream of \<open>selectUpstreamConfig\<close>, or its error when none is set.\<close>

definition legacy_upstream :: "ProxyConfig \<Rightarrow> string \<Rightarrow> config_error + UpstreamConfig" where
  "legacy_upstream config clientModel =
     (case upstreamBaseUrl config of
        None \<Rightarrow> Inl (NoUpstreamConfiguration clientModel)
      | Some b \<Rightarrow>
          if b = [] then Inl (NoUpstreamConfiguration clientModel)
          else Inr \<lparr> baseUrl = b, apiKey = upstreamApiKey config,
                     requestModel = or_default (upstreamModelOverride config) clientModel,
                     nameModel = clientModel \<rparr>)"

text \<open>The key after the passthrough rule of \<open>parseChannelInfo\<close>.\<close>

definition effective_key :: "ProxyConfig \<Rightarrow> string option \<Rightarrow> string option \<Rightarrow> string option" where
  "effective_key config clientKey configured =
     (if passthroughApiKey config \<and> truthy clientKey then clientKey else configured)"

text \<open>A configuration with one channel, one numbered upstream and a legacy upstream.\<close>

definition example_config :: ProxyConfig where
  "example_config =
     \<lparr> port = Fin 3456, host = ''0.0.0.0'',
       upstreamConfigs =
         [\<lparr> baseUrl = ''https://multi.example/v1'', apiKey = Some ''sk-multi'',
            requestModel = ''gpt-4o'', nameModel = ''fast'' \<rparr>],
       channelConfigs =
         [\<lparr> ch_name = ''openrouter'', ch_baseUrl = ''https://openrouter.example/v1'',
            ch_apiKey = Some ''sk-or'', ch_protocol = Some OpenAI \<rparr>],
       upstreamBaseUrl = Some ''https://legacy.example/v1'',
       upstreamApiKey = Some ''sk-legacy'',
       upstreamModelOverride = None,
       clientApiKey = None,
       requestTimeoutMs = Fin 120000, aggregationIntervalMs = Fin 35,
       maxRequestsPerMinute = Fin 10, cfg_tokenMultiplier = Fin 1,
       autoPort = False, passthroughApiKey = True, defaultProtocol = Some Anthropic \<rparr>"

section \<open>The end of the upstream stream (handle_openai_stream.ts, handle_anthropic_stream.ts)\<close>

text \<open>
  Both handlers end alike, after \<open>parser.finish()\<close>. \<open>config.toolCallRetry\<close> is
  optional, with \<open>enabled\<close>, \<open>keepAlive\<close> and \<open>maxRetries\<close>; \<open>maxRetries\<close> is taken
  as an integer.
\<close>

record ToolCallRetry =
  enabled :: bool
  keepAlive :: "bool option"
  maxRetries :: "int option"

text \<open>
  What \<open>ToolCallRetryHandler.retry\<close> returns: \<open>success\<close> with the parsed call, or a
  failure with its error. The handler itself (tool_retry.ts) is not among the
  sources; the handlers receive its answers through the parameter \<open>retry\<close>, a
  function of the failed content, the prior text and the attempt number.
\<close>

datatype 'a RetryResult = RetrySucceeded "'a ParsedInvokeCall" | RetryFailed string

fun is_tool_call_failed :: "'a ParserEvent \<Rightarrow> bool" where
  "is_tool_call_failed (ToolCallFailed content priorText) = True"
| "is_tool_call_failed e = False"

text \<open>
  \<open>for (attempt = 1; attempt <= maxRetries; attempt++)\<close> with its \<open>break\<close>; the
  result says whether a retry succeeded.
\<close>

function retry_loop ::
    "'a deps \<Rightarrow> bool \<Rightarrow> (int \<Rightarrow> 'a RetryResult) \<Rightarrow> int \<Rightarrow> int \<Rightarrow> StreamContext
      \<Rightarrow> bool \<times> StreamContext" where
  "retry_loop d ka retry maxR attempt c =
     (if attempt \<le> maxR then
        (case retry attempt of
           RetrySucceeded call \<Rightarrow> (True, handleEvents d [ToolCall call] c)
         | RetryFailed err \<Rightarrow>
             retry_loop d ka retry maxR (attempt + 1)
               (if attempt < maxR \<and> ka then send Ping c else c))
      else (False, c))"
  by pat_completeness auto
termination
  by (relation "measure (\<lambda>(d, ka, retry, maxR, attempt, c). nat (maxR + 1 - attempt))") auto

declare retry_loop.simps [simp del]

text \<open>
  The handlers after \<open>parser.finish()\<close>: \<open>events\<close> are the parser's last events,
  \<open>hasDelimiter\<close>, \<open>hasMessages\<close> and \<open>hasUrl\<close> stand for \<open>delimiter\<close>,
  \<open>originalMessages.length > 0\<close> and \<open>upstreamUrl\<close>.
\<close>

definition handle_stream_end ::
    "'a deps \<Rightarrow> ToolCallRetry option \<Rightarrow> bool \<Rightarrow> bool \<Rightarrow> bool
      \<Rightarrow> (string \<Rightarrow> string \<Rightarrow> int \<Rightarrow> 'a RetryResult)
      \<Rightarrow> 'a ParserEvent list \<Rightarrow> StreamContext \<Rightarrow> StreamContext" where
  "handle_stream_end d toolCallRetry hasDelimiter hasMessages hasUrl retry events c =
     (case find is_tool_call_failed events of
        Some (ToolCallFailed content priorText) \<Rightarrow>
          (case toolCallRetry of
             Some cfg \<Rightarrow>
               if enabled cfg \<and> hasDelimiter \<and> hasMessages \<and> hasUrl then
                 (let ka = (keepAlive cfg \<noteq> Some False);
                      c1 = (if ka then send Ping c else c);
                      maxR = (case maxRetries cfg of
                                None \<Rightarrow> 1
                              | Some n \<Rightarrow> if n = 0 then 1 else n);
                      (retrySuccess, c2) =
                        retry_loop d ka (retry content priorText) maxR 1 c1
                  in if \<not> retrySuccess then handleEvents d [Text content] c2 else c2)
               else handleEvents d events c
           | None \<Rightarrow> handleEvents d events c)
      | _ \<Rightarrow> handleEvents d events c)"

text \<open>The retry branch is taken, for this failed event.\<close>

definition retries ::
    "ToolCallRetry option \<Rightarrow> bool \<Rightarrow> bool \<Rightarrow> bool \<Rightarrow> 'a ParserEvent list \<Rightarrow> string \<Rightarrow> string
      \<Rightarrow> bool" where
  "retries toolCallRetry hasDelimiter hasMessages hasUrl events content priorText \<longleftrightarrow>
     find is_tool_call_failed events = Some (ToolCallFailed content priorText) \<and>
     (case toolCallRetry of None \<Rightarrow> False | Some cfg \<Rightarrow> enabled cfg) \<and>
     hasDelimiter \<and> hasMessages \<and> hasUrl"

definition max_retries :: "ToolCallRetry option \<Rightarrow> int" where
  "max_retries toolCallRetry =
     (case toolCallRetry of
        None \<Rightarrow> 1
      | Some cfg \<Rightarrow> (case maxRetries cfg of None \<Rightarrow> 1 | Some n \<Rightarrow> if n = 0 then 1 else n))"

fun succeeded :: "'a RetryResult \<Rightarrow> bool" where
  "succeeded (RetrySucceeded call) = True"
| "succeeded (RetryFailed err) = False"

text \<open>\<open>c'\<close> has the frames of \<open>c\<close> and then frames that start no tool_use block.\<close>

definition adds_no_tool_use :: "StreamContext \<Rightarrow> StreamContext \<Rightarrow> bool" where
  "adds_no_tool_use c c' \<longleftrightarrow>
     (\<exists>gs. sent c' = sent c @ gs \<and> filter is_tool_use_start gs = [])"



definition retry_second :: "string \<Rightarrow> string \<Rightarrow> int \<Rightarrow> string RetryResult" where
  "retry_second content priorText attempt =
     (if attempt = 2 then RetrySucceeded \<lparr>name = ''get_weather'', arguments = ''{}''\<rparr>
      else RetryFailed ''malformed'')"


section \<open>The incremental stream parser\<close>

text \<open>
  Modelled from the spec: parser.ts (\<open>ToolifyParser\<close>) is not among the sources, only
  its callers and two of its tests are. The model follows section 4.5 of the spec:
  a machine fed one character at a time, with the states listed there, markers
  matched at the end of a buffer, and a partially matched prefix of a marker held
  back until it is refuted.
\<close>

definition THINKING_OPEN :: string where "THINKING_OPEN = ''<thinking>''"
definition THINKING_CLOSE :: string where "THINKING_CLOSE = ''</thinking>''"
definition INVOKE_OPEN :: string where "INVOKE_OPEN = ''<invoke name=\"''"
definition INVOKE_CLOSE :: string where "INVOKE_CLOSE = ''</invoke>''"
definition PARAM_OPEN :: string where "PARAM_OPEN = ''<parameter name=\"''"
definition PARAM_CLOSE :: string where "PARAM_CLOSE = ''</parameter>''"
definition ATTR_END :: string where "ATTR_END = ''\">''"

datatype parser_mode =
    NORMAL
  | THINKING
  | TOOL_WAIT_INVOKE
  | TOOL_NAME
  | TOOL_BODY
  | TOOL_PARAM_NAME
  | TOOL_PARAM_VALUE

text \<open>
  A parameter value is tried as JSON first (\<open>json_parse\<close>, a parameter of the
  machine) and kept as raw text when that fails.
\<close>

datatype 'j param_value = JsonValue 'j | RawText string

type_synonym 'j tool_arguments = "(string \<times> 'j param_value) list"

text \<open>
  The state: the delimiter's \<open>TC_START\<close> if tools are configured; the state of the
  machine; the buffer of the current state; the raw text consumed since the
  trigger; the text emitted so far and its copy at the trigger (\<open>priorText\<close>); the
  pieces of the tool call; whether the call is malformed; whether a call is done,
  after which upstream text is ignored; and the events emitted.
\<close>

record 'j parser =
  tc_start :: "string option"
  pmode :: parser_mode
  buf :: string
  rawText :: string
  textSoFar :: string
  textAtTrigger :: string
  toolName :: string
  paramName :: string
  params :: "'j tool_arguments"
  malformed :: bool
  toolDone :: bool
  emitted :: "'j tool_arguments ParserEvent list"

definition new_parser :: "string option \<Rightarrow> 'j parser" where
  "new_parser delimiter =
     \<lparr> tc_start = delimiter, pmode = NORMAL, buf = [], rawText = [], textSoFar = [],
       textAtTrigger = [], toolName = [], paramName = [], params = [], malformed = False,
       toolDone = False, emitted = [] \<rparr>"

text \<open>The markers the NORMAL state watches for.\<close>

definition watching :: "string option \<Rightarrow> string \<Rightarrow> bool" where
  "watching delimiter s \<longleftrightarrow> (case delimiter of None \<Rightarrow> False | Some tc \<Rightarrow> tc \<noteq> [] \<and> s = tc)"

definition normal_markers :: "string option \<Rightarrow> string list" where
  "normal_markers delimiter =
     THINKING_OPEN # (case delimiter of None \<Rightarrow> [] | Some tc \<Rightarrow> if tc = [] then [] else [tc])"

text \<open>
  The longest suffix of the buffer that is a proper prefix of a marker: what is held
  back, not emitted until refuted.
\<close>

fun held :: "string list \<Rightarrow> string \<Rightarrow> string" where
  "held ms [] = []"
| "held ms (c # cs) =
     (if list_ex (\<lambda>m. strict_prefix (c # cs) m) ms then c # cs else held ms cs)"

text \<open>The buffer without a marker, or without what is held, at its end.\<close>

definition before_end :: "string \<Rightarrow> string \<Rightarrow> string" where
  "before_end b m = take (length b - length m) b"

definition emit_text :: "string \<Rightarrow> 'j parser \<Rightarrow> 'j parser" where
  "emit_text t st =
     (if t = [] then st
      else st\<lparr> emitted := emitted st @ [Text t], textSoFar := textSoFar st @ t \<rparr>)"

definition emit_thinking :: "string \<Rightarrow> 'j parser \<Rightarrow> 'j parser" where
  "emit_thinking t st = (if t = [] then st else st\<lparr> emitted := emitted st @ [Thinking t] \<rparr>)"

text \<open>
  TOOL_DONE: after \<open></invoke>\<close> the call is emitted, or the failure when the call is
  malformed, with the raw text from the trigger on; the machine is back in NORMAL
  and ignores what the upstream sends next.
\<close>

definition tool_done :: "'j parser \<Rightarrow> 'j parser" where
  "tool_done st =
     st\<lparr> emitted := emitted st @
            [if malformed st \<or> toolName st = [] then ToolCallFailed (rawText st) (textAtTrigger st)
             else ToolCall \<lparr> name = toolName st, arguments = params st \<rparr>],
         pmode := NORMAL, buf := [], toolDone := True \<rparr>"

definition feedChar :: "(string \<Rightarrow> 'j option) \<Rightarrow> 'j parser \<Rightarrow> char \<Rightarrow> 'j parser" where
  "feedChar json_parse st c =
     (if toolDone st then st
      else
        (case pmode st of
           NORMAL \<Rightarrow>
             (let b = buf st @ [c]
              in if suffix THINKING_OPEN b then
                   (emit_text (before_end b THINKING_OPEN) st)\<lparr> pmode := THINKING, buf := [] \<rparr>
                 else if list_ex (\<lambda>tc. suffix tc b) (tl (normal_markers (tc_start st))) then
                   (let st1 = emit_text (before_end b (hd (tl (normal_markers (tc_start st))))) st
                    in st1\<lparr> pmode := TOOL_WAIT_INVOKE, buf := [],
                            rawText := hd (tl (normal_markers (tc_start st))),
                            textAtTrigger := textSoFar st1 \<rparr>)
                 else
                   (let h = held (normal_markers (tc_start st)) b
                    in (emit_text (before_end b h) st)\<lparr> buf := h \<rparr>))
         | THINKING \<Rightarrow>
             (let b = buf st @ [c]
              in if suffix THINKING_CLOSE b then
                   (emit_thinking (before_end b THINKING_CLOSE) st)\<lparr> pmode := NORMAL, buf := [] \<rparr>
                 else st\<lparr> buf := b \<rparr>)
         | TOOL_WAIT_INVOKE \<Rightarrow>
             (let st1 = st\<lparr> rawText := rawText st @ [c] \<rparr>
              in if buf st = [] \<and> is_space c then st1
                 else
                   (let b = buf st @ [c]
                    in if b = INVOKE_OPEN then st1\<lparr> pmode := TOOL_NAME, buf := [] \<rparr>
                       else if prefix b INVOKE_OPEN then st1\<lparr> buf := b \<rparr>
                       else st1\<lparr> pmode := TOOL_BODY, buf := b, malformed := True \<rparr>))
         | TOOL_NAME \<Rightarrow>
             (let st1 = st\<lparr> rawText := rawText st @ [c] \<rparr>; b = buf st @ [c]
              in if suffix ATTR_END b then
                   st1\<lparr> pmode := TOOL_BODY, buf := [], toolName := before_end b ATTR_END \<rparr>
                 else st1\<lparr> buf := b \<rparr>)
         | TOOL_BODY \<Rightarrow>
             (let st1 = st\<lparr> rawText := rawText st @ [c] \<rparr>; b = buf st @ [c]
              in if suffix INVOKE_CLOSE b then tool_done st1
                 else if suffix PARAM_OPEN b then st1\<lparr> pmode := TOOL_PARAM_NAME, buf := [] \<rparr>
                 else if suffix ''<parameter>'' b then st1\<lparr> buf := b, malformed := True \<rparr>
                 else st1\<lparr> buf := b \<rparr>)
         | TOOL_PARAM_NAME \<Rightarrow>
             (let st1 = st\<lparr> rawText := rawText st @ [c] \<rparr>; b = buf st @ [c]
              in if suffix ATTR_END b then
                   st1\<lparr> pmode := TOOL_PARAM_VALUE, buf := [], paramName := before_end b ATTR_END,
                         malformed := (malformed st \<or> before_end b ATTR_END = []) \<rparr>
                 else st1\<lparr> buf := b \<rparr>)
         | TOOL_PARAM_VALUE \<Rightarrow>
             (let st1 = st\<lparr> rawText := rawText st @ [c] \<rparr>; b = buf st @ [c]
              in if suffix PARAM_CLOSE b then
                   (let v = before_end b PARAM_CLOSE
                    in st1\<lparr> pmode := TOOL_BODY, buf := [],
                            params := params st @
                              [(paramName st,
                                case json_parse v of None \<Rightarrow> RawText v | Some j \<Rightarrow> JsonValue j)] \<rparr>)
                 else st1\<lparr> buf := b \<rparr>)))"

text \<open>\<open>feedReasoning\<close>: an upstream-native thinking delta, appended as it is.\<close>

definition feedReasoning :: "'j parser \<Rightarrow> string \<Rightarrow> 'j parser" where
  "feedReasoning st s = emit_thinking s st"

text \<open>
  \<open>finish\<close>: what is held in NORMAL is text after all; an open thinking span ends
  with the input; a call without its \<open></invoke>\<close> has failed. \<open>End\<close> comes last.
\<close>

definition parser_finish :: "'j parser \<Rightarrow> 'j parser" where
  "parser_finish st =
     (let st1 =
            (if toolDone st then st
             else
               (case pmode st of
                  NORMAL \<Rightarrow> (emit_text (buf st) st)\<lparr> buf := [] \<rparr>
                | THINKING \<Rightarrow> (emit_thinking (buf st) st)\<lparr> buf := [] \<rparr>
                | _ \<Rightarrow> st\<lparr> emitted := emitted st @ [ToolCallFailed (rawText st) (textAtTrigger st)],
                           toolDone := True \<rparr>))
      in st1\<lparr> emitted := emitted st1 @ [End] \<rparr>)"

definition consumeEvents :: "'j parser \<Rightarrow> 'j tool_arguments ParserEvent list \<times> 'j parser" where
  "consumeEvents st = (emitted st, st\<lparr> emitted := [] \<rparr>)"

text \<open>Feed a whole text, finish, and take the events, as \<open>parseResponse\<close> does.\<close>

definition parse_events ::
    "(string \<Rightarrow> 'j option) \<Rightarrow> string option \<Rightarrow> string \<Rightarrow> 'j tool_arguments ParserEvent list" where
  "parse_events json_parse delimiter input =
     fst (consumeEvents (parser_finish (foldl (feedChar json_parse) (new_parser delimiter) input)))"

text \<open>The contents of the \<open>Text\<close> events, put together.\<close>

fun text_content :: "'a ParserEvent \<Rightarrow> string" where
  "text_content (Text t) = t"
| "text_content e = []"

definition text_of :: "'a ParserEvent list \<Rightarrow> string" where
  "text_of evs = concat (map text_content evs)"

subsection \<open>What the text should be\<close>

text \<open>What follows the first \<open></thinking>\<close> of a text; nothing when there is none.\<close>

fun after_close :: "string \<Rightarrow> string" where
  "after_close [] = []"
| "after_close (c # cs) =
     (if prefix THINKING_CLOSE (c # cs) then drop (length THINKING_CLOSE) (c # cs)
      else after_close cs)"

lemma after_close_length: "length (after_close s) \<le> length s"
  by (induction s) auto

text \<open>
  The visible text of an upstream text: read from the left, a \<open><thinking>\<close> span is
  left out up to its \<open></thinking>\<close> (to the end when it is not closed), and the text
  ends where the trigger signal starts.
\<close>

function visible_text :: "string option \<Rightarrow> string \<Rightarrow> string" where
  "visible_text delimiter s =
     (if s = [] then []
      else if prefix THINKING_OPEN s then
        visible_text delimiter (after_close (drop (length THINKING_OPEN) s))
      else if list_ex (\<lambda>tc. prefix tc s) (tl (normal_markers delimiter)) then []
      else hd s # visible_text delimiter (tl s))"
  by pat_completeness auto
termination
proof (relation "measure (\<lambda>(delimiter, s). length s)")
  show "wf (measure (\<lambda>(delimiter, s). length s))" by simp
next
  fix delimiter :: "string option" and s :: string
  assume "s \<noteq> []" "prefix THINKING_OPEN s"
  then have "length (drop (length THINKING_OPEN) s) < length s"
    by (simp add: THINKING_OPEN_def)
  with after_close_length [of "drop (length THINKING_OPEN) s"]
  show "((delimiter, after_close (drop (length THINKING_OPEN) s)), (delimiter, s))
        \<in> measure (\<lambda>(delimiter, s). length s)"
    by simp
next
  fix delimiter :: "string option" and s :: string
  assume "s \<noteq> []"
  then show "((delimiter, tl s), (delimiter, s)) \<in> measure (\<lambda>(delimiter, s). length s)"
    by simp
qed

declare visible_text.simps [simp del]

text \<open>
  The text as the claim words it: each \<open><thinking>...</thinking>\<close> span, each
  occurrence of the trigger signal and everything from a matched \<open><invoke\<close> through
  its \<open></invoke>\<close> removed, all else kept.
\<close>

fun occurs :: "string \<Rightarrow> string \<Rightarrow> bool" where
  "occurs p [] = (p = [])"
| "occurs p (c # cs) = (prefix p (c # cs) \<or> occurs p cs)"

fun after_invoke :: "string \<Rightarrow> string" where
  "after_invoke [] = []"
| "after_invoke (c # cs) =
     (if prefix INVOKE_CLOSE (c # cs) then drop (length INVOKE_CLOSE) (c # cs)
      else after_invoke cs)"

lemma after_invoke_length: "length (after_invoke s) \<le> length s"
  by (induction s) auto

function spans_removed :: "string \<Rightarrow> string \<Rightarrow> string" where
  "spans_removed tc s =
     (if s = [] then []
      else if prefix THINKING_OPEN s \<and> occurs THINKING_CLOSE (drop (length THINKING_OPEN) s) then
        spans_removed tc (after_close (drop (length THINKING_OPEN) s))
      else if tc \<noteq> [] \<and> prefix tc s then spans_removed tc (drop (length tc) s)
      else if prefix ''<invoke'' s \<and> occurs INVOKE_CLOSE s then
        spans_removed tc (after_invoke (tl s))
      else hd s # spans_removed tc (tl s))"
  by pat_completeness auto
termination
proof (relation "measure (\<lambda>(tc, s). length s)")
  show "wf (measure (\<lambda>(tc, s). length s))" by simp
next
  fix tc s :: string
  assume "s \<noteq> []"
    "prefix THINKING_OPEN s \<and> occurs THINKING_CLOSE (drop (length THINKING_OPEN) s)"
  then have "length (drop (length THINKING_OPEN) s) < length s"
    by (simp add: THINKING_OPEN_def)
  with after_close_length [of "drop (length THINKING_OPEN) s"]
  show "((tc, after_close (drop (length THINKING_OPEN) s)), (tc, s)) \<in> measure (\<lambda>(tc, s). length s)"
    by simp
next
  fix tc s :: string
  assume "s \<noteq> []" "tc \<noteq> [] \<and> prefix tc s"
  then show "((tc, drop (length tc) s), (tc, s)) \<in> measure (\<lambda>(tc, s). length s)"
    by simp
next
  fix tc s :: string
  assume "s \<noteq> []"
  then have "length (tl s) < length s" by simp
  with after_invoke_length [of "tl s"]
  show "((tc, after_invoke (tl s)), (tc, s)) \<in> measure (\<lambda>(tc, s). length s)"
    by simp
next
  fix tc s :: string
  assume "s \<noteq> []"
  then show "((tc, tl s), (tc, s)) \<in> measure (\<lambda>(tc, s). length s)"
    by simp
qed

declare spans_removed.simps [simp del]

subsection \<open>Names for the statements about the parser\<close>

text \<open>
  The trigger signal and \<open><thinking>\<close> do not contain one another. A generated
  signal, \<open><<CALL_\<close> then four letters or digits then \<open>>>\<close>, is such.
\<close>

definition markers_apart :: "string option \<Rightarrow> bool" where
  "markers_apart delimiter \<longleftrightarrow>
     list_all (\<lambda>tc. \<not> sublist tc THINKING_OPEN \<and> \<not> sublist THINKING_OPEN tc)
       (tl (normal_markers delimiter))"

text \<open>
  What holds of the state between two characters: in NORMAL the buffer holds a proper
  prefix of a marker, or nothing; in THINKING it holds no \<open></thinking>\<close>.
\<close>

definition parser_inv :: "string option \<Rightarrow> 'j parser \<Rightarrow> bool" where
  "parser_inv delimiter st \<longleftrightarrow>
     tc_start st = delimiter \<and>
     (pmode st = NORMAL \<and> \<not> toolDone st \<longrightarrow>
        buf st = [] \<or> (\<exists>m\<in>set (normal_markers delimiter). strict_prefix (buf st) m)) \<and>
     (pmode st = THINKING \<and> \<not> toolDone st \<longrightarrow> \<not> sublist THINKING_CLOSE (buf st))"

text \<open>The text still to come from a state when \<open>rest\<close> is what the upstream sends next.\<close>

definition remaining_text :: "string option \<Rightarrow> 'j parser \<Rightarrow> string \<Rightarrow> string" where
  "remaining_text delimiter st rest =
     (if toolDone st then []
      else
        (case pmode st of
           NORMAL \<Rightarrow> visible_text delimiter (buf st @ rest)
         | THINKING \<Rightarrow> visible_text delimiter (after_close (buf st @ rest))
         | _ \<Rightarrow> []))"

text \<open>The input of the repository's parser test, with its trigger signal.\<close>

definition test_trigger :: string where
  "test_trigger = ''<<CALL_aa11>>''"

definition test_input :: string where
  "test_input =
     ''Thoughts...<<CALL_aa11>>'' @ [CHR 0x0A] @
     ''<invoke name=\"get_weather\">'' @ [CHR 0x0A] @
     ''<parameter name=\"city\">\"New York\"</parameter>'' @ [CHR 0x0A] @
     ''<parameter name=\"unit\">\"c\"</parameter>'' @ [CHR 0x0A] @
     ''</invoke>'' @ [CHR 0x0A]"

section \<open>Proofs about the Claude SSE writer\<close>

subsection \<open>Invariants of the stream state\<close>

lemma start_indices_append [simp]:
  "start_indices (fs @ gs) = start_indices fs @ start_indices gs"
  by (induction fs) (auto split: frame.splits)

lemma blocks_ok_append:
  "blocks_ok live (fs @ gs) = (blocks_ok live fs \<and> blocks_ok (foldl track live fs) gs)"
  by (induction fs arbitrary: live) auto

lemma upt_nat_Suc: "0 \<le> n \<Longrightarrow> map int [0..<nat (n + 1)] = map int [0..<nat n] @ [n]"
  by (simp add: nat_add_distrib)

lemma inv_send_other:
  "writer_inv c \<Longrightarrow> start_indices [f] = [] \<Longrightarrow> track (open_blocks (sent c)) f = open_blocks (sent c)
     \<Longrightarrow> refers_to_open (open_blocks (sent c)) f \<Longrightarrow> writer_inv (send f c)"
  by (simp add: writer_inv_def send_def blocks_ok_append open_blocks_def)

lemma inv_ensureTextBlock:
  "writer_inv c \<Longrightarrow> \<not> thinkingBlockOpen c \<Longrightarrow> writer_inv (ensureTextBlock c) \<and> textBlockOpen (ensureTextBlock c)
     \<and> pending (ensureTextBlock c) = pending c \<and> thinkingBlockOpen (ensureTextBlock c) = thinkingBlockOpen c"
  by (auto simp add: writer_inv_def ensureTextBlock_def send_def blocks_ok_append open_blocks_def upt_nat_Suc)

lemma inv_flushText:
  "writer_inv c \<Longrightarrow> \<not> thinkingBlockOpen c \<Longrightarrow> pending c = [] \<Longrightarrow>
     writer_inv (flushText d text c) \<and> pending (flushText d text c) = []
     \<and> \<not> thinkingBlockOpen (flushText d text c)"
  by (auto simp add: writer_inv_def flushText_def ensureTextBlock_def Let_def send_def blocks_ok_append
        open_blocks_def upt_nat_Suc)

lemma inv_flushAsync:
  "writer_inv c \<Longrightarrow> writer_inv (flushAsync d c) \<and> pending (flushAsync d c) = []
     \<and> thinkingBlockOpen (flushAsync d c) = thinkingBlockOpen c"
  by (auto simp add: writer_inv_def flushAsync_def flushText_def ensureTextBlock_def Let_def send_def
        blocks_ok_append open_blocks_def upt_nat_Suc)

lemma inv_endTextBlock:
  "writer_inv c \<Longrightarrow> writer_inv (endTextBlock c) \<and> \<not> textBlockOpen (endTextBlock c)
     \<and> pending (endTextBlock c) = pending c
     \<and> thinkingBlockOpen (endTextBlock c) = thinkingBlockOpen c"
  by (auto simp add: writer_inv_def endTextBlock_def send_def blocks_ok_append open_blocks_def)

lemma inv_endThinkingBlock:
  "writer_inv c \<Longrightarrow> writer_inv (endThinkingBlock c) \<and> \<not> thinkingBlockOpen (endThinkingBlock c)
     \<and> pending (endThinkingBlock c) = pending c
     \<and> textBlockOpen (endThinkingBlock c) = textBlockOpen c"
  by (auto simp add: writer_inv_def endThinkingBlock_def Let_def send_def blocks_ok_append open_blocks_def)

lemma thinking_loop:
  "foldl (\<lambda>s chunk. send (ContentBlockDelta (nextBlockIndex s - 1) (ThinkingDelta chunk)) s) c xs =
     c\<lparr>sent := sent c @ map (\<lambda>chunk. ContentBlockDelta (nextBlockIndex c - 1) (ThinkingDelta chunk)) xs\<rparr>"
  by (induction xs arbitrary: c) (simp_all add: send_def)

lemma json_loop:
  "foldl (\<lambda>s chunk. send (ContentBlockDelta i (InputJsonDelta chunk)) s) c xs =
     c\<lparr>sent := sent c @ map (\<lambda>chunk. ContentBlockDelta i (InputJsonDelta chunk)) xs\<rparr>"
  by (induction xs arbitrary: c) (simp_all add: send_def)

lemma start_indices_deltas [simp]:
  "start_indices (map (\<lambda>x. ContentBlockDelta i (g x)) xs) = []"
  by (induction xs) auto

lemma track_deltas [simp]:
  "foldl track live (map (\<lambda>x. ContentBlockDelta i (g x)) xs) = live"
  by (induction xs) auto

lemma blocks_ok_deltas:
  "i \<in> set live \<Longrightarrow> blocks_ok live (map (\<lambda>x. ContentBlockDelta i (g x)) xs)"
  by (induction xs) auto

lemma inv_emitThinking:
  "writer_inv c \<Longrightarrow> \<not> textBlockOpen c \<Longrightarrow> pending c = [] \<Longrightarrow>
     writer_inv (emitThinking d content c) \<and> pending (emitThinking d content c) = []"
  unfolding emitThinking_def Let_def thinking_loop
  by (auto simp add: writer_inv_def ensureThinkingBlock_def send_def
        blocks_ok_append open_blocks_def upt_nat_Suc blocks_ok_deltas)

lemma inv_emitToolCall:
  "writer_inv c \<Longrightarrow> \<not> thinkingBlockOpen c \<Longrightarrow>
     writer_inv (emitToolCall d call c) \<and> pending (emitToolCall d call c) = pending c"
  unfolding emitToolCall_def Let_def json_loop
  by (auto simp add: writer_inv_def endTextBlock_def send_def
        blocks_ok_append open_blocks_def upt_nat_Suc blocks_ok_deltas)

lemma inv_finished_update [simp]: "writer_inv (c\<lparr>finished := b\<rparr>) = writer_inv c"
  by (simp add: writer_inv_def)

lemma inv_aggregator_add:
  "writer_inv c \<Longrightarrow> \<not> thinkingBlockOpen c \<Longrightarrow> writer_inv (aggregator_add text c)"
  by (simp add: writer_inv_def aggregator_add_def)

lemma inv_send_closing:
  "writer_inv c \<Longrightarrow> writer_inv (send (MessageDelta r n) c) \<and> writer_inv (send MessageStop c)"
  by (simp add: writer_inv_def send_def blocks_ok_append open_blocks_def)

lemma inv_finish: "writer_inv c \<Longrightarrow> writer_inv (finish d c)"
  unfolding finish_def Let_def
  by (simp add: inv_send_closing inv_endThinkingBlock inv_endTextBlock inv_flushAsync)

lemma inv_handleEvent: "writer_inv c \<Longrightarrow> writer_inv (handleEvent d c e)"
proof (cases e)
  case (Text content)
  then show "writer_inv c \<Longrightarrow> writer_inv (handleEvent d c e)"
    using inv_endThinkingBlock [of c]
    by (auto simp add: inv_aggregator_add)
next
  case (Thinking content)
  assume i: "writer_inv c"
  from inv_flushAsync [OF i, of d] inv_endTextBlock [of "flushAsync d c"]
  have "writer_inv (endTextBlock (flushAsync d c))" "\<not> textBlockOpen (endTextBlock (flushAsync d c))"
    "pending (endTextBlock (flushAsync d c)) = []" by auto
  from inv_emitThinking [OF this, of d content]
  show ?thesis using Thinking by simp
next
  case (ToolCall call)
  assume i: "writer_inv c"
  from inv_flushAsync [OF i, of d] inv_endTextBlock [of "flushAsync d c"]
  have "writer_inv (endTextBlock (flushAsync d c))" by auto
  from inv_endThinkingBlock [OF this]
  have "writer_inv (endThinkingBlock (endTextBlock (flushAsync d c)))"
    "\<not> thinkingBlockOpen (endThinkingBlock (endTextBlock (flushAsync d c)))" by auto
  from inv_emitToolCall [OF this, of d call]
  show ?thesis using ToolCall by simp
next
  case (ToolCallFailed content priorText)
  then show "writer_inv c \<Longrightarrow> writer_inv (handleEvent d c e)" by simp
next
  case End
  then show "writer_inv c \<Longrightarrow> writer_inv (handleEvent d c e)" by (simp add: inv_finish)
qed

lemma inv_handleEvents: "writer_inv c \<Longrightarrow> writer_inv (handleEvents d events c)"
  unfolding handleEvents_def
  by (induction events arbitrary: c) (simp_all add: inv_handleEvent)

lemma inv_act: "writer_inv c \<Longrightarrow> writer_inv (act d c a)"
  by (cases a) (simp_all add: inv_handleEvents inv_flushAsync)

lemma inv_init: "writer_inv (init (new_ClaudeStream mult rid inTok))"
  by (simp add: writer_inv_def init_def new_ClaudeStream_def send_def open_blocks_def)

lemma inv_run: "writer_inv (run d mult rid inTok acts)"
proof -
  have "writer_inv c \<Longrightarrow> writer_inv (foldl (act d) c acts)" for c
    by (induction acts arbitrary: c) (simp_all add: inv_act)
  then show ?thesis unfolding run_def using inv_init by blast
qed

lemma sorted_wrt_map_int_upt: "sorted_wrt (<) (map int [0..<n])"
  by (simp add: sorted_wrt_map sorted_wrt_upt)

lemma tool_use_emitted_append [simp]:
  "tool_use_emitted (fs @ gs) = (tool_use_emitted fs \<or> tool_use_emitted gs)"
  by (simp add: tool_use_emitted_def list_ex_iff) blast

lemma tool_use_emitted_simps [simp]:
  "tool_use_emitted [] = False"
  "tool_use_emitted (f # fs) = (is_tool_use_start f \<or> tool_use_emitted fs)"
  by (simp_all add: tool_use_emitted_def)

lemma stop_reasons_ok_append:
  "stop_reasons_ok seen (fs @ gs) =
     (stop_reasons_ok seen fs \<and> stop_reasons_ok (seen \<or> tool_use_emitted fs) gs)"
proof (induction seen fs rule: stop_reasons_ok.induct)
  case (1 seen)
  then show ?case by simp
next
  case (2 seen r n fs)
  then show ?case by auto
qed (simp_all add: disj_assoc)

lemma tool_use_deltas [simp]:
  "tool_use_emitted (map (\<lambda>x. ContentBlockDelta i (g x)) xs) = False"
  by (induction xs) auto

lemma stop_reasons_deltas [simp]:
  "stop_reasons_ok seen (map (\<lambda>x. ContentBlockDelta i (g x)) xs)"
  by (induction xs) auto

lemma closing_deltas [simp]:
  "filter is_closing (map (\<lambda>x. ContentBlockDelta i (g x)) xs) = []"
  by (induction xs) auto

lemma close_flushAsync:
  "inv_close c \<Longrightarrow> inv_close (flushAsync d c) \<and> finished (flushAsync d c) = finished c"
  by (auto simp add: inv_close_def flushAsync_def flushText_def ensureTextBlock_def Let_def
        send_def stop_reasons_ok_append)

lemma close_endTextBlock:
  "inv_close c \<Longrightarrow> inv_close (endTextBlock c) \<and> finished (endTextBlock c) = finished c"
  by (auto simp add: inv_close_def endTextBlock_def send_def stop_reasons_ok_append)

lemma close_endThinkingBlock:
  "inv_close c \<Longrightarrow> inv_close (endThinkingBlock c) \<and> finished (endThinkingBlock c) = finished c"
  by (auto simp add: inv_close_def endThinkingBlock_def Let_def send_def stop_reasons_ok_append)

lemma close_aggregator_add:
  "inv_close c \<Longrightarrow> inv_close (aggregator_add text c) \<and> finished (aggregator_add text c) = finished c"
  by (simp add: inv_close_def aggregator_add_def)

lemma close_emitThinking:
  "inv_close c \<Longrightarrow> inv_close (emitThinking d content c)
     \<and> finished (emitThinking d content c) = finished c"
  unfolding emitThinking_def Let_def thinking_loop
  by (auto simp add: inv_close_def ensureThinkingBlock_def send_def stop_reasons_ok_append)

lemma close_emitToolCall:
  "inv_close c \<Longrightarrow> inv_close (emitToolCall d call c)
     \<and> finished (emitToolCall d call c) = finished c"
  unfolding emitToolCall_def Let_def json_loop
  by (auto simp add: inv_close_def endTextBlock_def send_def stop_reasons_ok_append)

lemma close_finish:
  "inv_close c \<Longrightarrow> inv_close (finish d c) \<and> finished (finish d c)"
proof (cases "finished c")
  case True
  then show "inv_close c \<Longrightarrow> inv_close (finish d c) \<and> finished (finish d c)"
    by (simp add: finish_def)
next
  case False
  assume i: "inv_close c"
  let ?c1 = "c\<lparr>finished := True\<rparr>"
  let ?c4 = "endThinkingBlock (endTextBlock (flushAsync d ?c1))"
  have c0: "hasToolCalls c = tool_use_emitted (sent c)" "stop_reasons_ok False (sent c)"
    "filter is_closing (sent c) = []"
    using i False by (simp_all add: inv_close_def)
  have a: "hasToolCalls ?c4 = tool_use_emitted (sent ?c4)"
    "stop_reasons_ok False (sent ?c4)" "filter is_closing (sent ?c4) = []" "finished ?c4"
    using c0
    by (auto simp add: flushAsync_def flushText_def ensureTextBlock_def Let_def
        endTextBlock_def endThinkingBlock_def send_def stop_reasons_ok_append)
  have f: "finish d c =
      send MessageStop (send (MessageDelta (if hasToolCalls ?c4 then ToolUse else EndTurn)
        (adjustedOutputTokens ?c4)) ?c4)"
    using False by (simp add: finish_def Let_def)
  show ?thesis unfolding f using a
    by (auto simp add: inv_close_def send_def stop_reasons_ok_append)
qed

lemma close_handleEvent: "inv_close c \<Longrightarrow> inv_close (handleEvent d c e)"
proof (cases e)
  case (Text content)
  then show "inv_close c \<Longrightarrow> inv_close (handleEvent d c e)"
    using close_endThinkingBlock [of c] by (auto simp add: close_aggregator_add)
next
  case (Thinking content)
  then show "inv_close c \<Longrightarrow> inv_close (handleEvent d c e)"
    by (simp add: close_emitThinking close_endTextBlock close_flushAsync)
next
  case (ToolCall call)
  then show "inv_close c \<Longrightarrow> inv_close (handleEvent d c e)"
    by (simp add: close_emitToolCall close_endThinkingBlock close_endTextBlock close_flushAsync)
next
  case (ToolCallFailed content priorText)
  then show "inv_close c \<Longrightarrow> inv_close (handleEvent d c e)" by simp
next
  case End
  then show "inv_close c \<Longrightarrow> inv_close (handleEvent d c e)" by (simp add: close_finish)
qed

lemma close_handleEvents: "inv_close c \<Longrightarrow> inv_close (handleEvents d events c)"
  unfolding handleEvents_def
  by (induction events arbitrary: c) (simp_all add: close_handleEvent)

lemma close_act: "inv_close c \<Longrightarrow> inv_close (act d c a)"
  by (cases a) (simp_all add: close_handleEvents close_flushAsync)

lemma close_acts: "inv_close c \<Longrightarrow> inv_close (foldl (act d) c acts)"
  by (induction acts arbitrary: c) (simp_all add: close_act)

lemma close_init: "inv_close (init (new_ClaudeStream mult rid inTok))"
  by (simp add: inv_close_def init_def new_ClaudeStream_def send_def)

lemma close_run: "inv_close (run d mult rid inTok acts)"
  unfolding run_def by (rule close_acts [OF close_init])

lemma finished_handleEvent: "finished c \<Longrightarrow> finished (handleEvent d c e)"
proof (cases e)
  case (Thinking content)
  then show "finished c \<Longrightarrow> finished (handleEvent d c e)"
    unfolding handleEvent.simps Thinking emitThinking_def Let_def thinking_loop
    by (simp add: ensureThinkingBlock_def endTextBlock_def flushAsync_def flushText_def
        ensureTextBlock_def Let_def send_def)
next
  case (ToolCall call)
  then show "finished c \<Longrightarrow> finished (handleEvent d c e)"
    unfolding handleEvent.simps ToolCall emitToolCall_def Let_def json_loop
    by (simp add: endThinkingBlock_def endTextBlock_def flushAsync_def flushText_def
        ensureTextBlock_def Let_def send_def)
qed (simp_all add: aggregator_add_def endThinkingBlock_def Let_def send_def finish_def)

lemma finished_act: "finished c \<Longrightarrow> finished (act d c a)"
proof (cases a)
  case (HandleEvents events)
  have "finished s \<Longrightarrow> finished (foldl (handleEvent d) s events)" for s
    by (induction events arbitrary: s) (simp_all add: finished_handleEvent)
  then show "finished c \<Longrightarrow> finished (act d c a)"
    using HandleEvents by (simp add: handleEvents_def)
next
  case TimerFires
  then show "finished c \<Longrightarrow> finished (act d c a)"
    by (simp add: flushAsync_def flushText_def ensureTextBlock_def Let_def send_def)
qed

lemma finished_acts: "finished c \<Longrightarrow> finished (foldl (act d) c acts)"
  by (induction acts arbitrary: c) (simp_all add: finished_act)

lemma appends_blocks_refl: "sent c' = sent c \<Longrightarrow> appends_blocks c c'"
  by (simp add: appends_blocks_def closing_frames_def)

lemma appends_blocks_trans:
  "appends_blocks a b \<Longrightarrow> appends_blocks b c \<Longrightarrow> appends_blocks a c"
  by (auto simp add: appends_blocks_def closing_frames_def)

lemma appends_blocks_send:
  "\<not> is_closing f \<Longrightarrow> appends_blocks c (send f c)"
  by (simp add: appends_blocks_def closing_frames_def send_def)

lemma appends_ensureTextBlock: "appends_blocks c (ensureTextBlock c)"
  by (simp add: ensureTextBlock_def appends_blocks_def closing_frames_def send_def)

lemma appends_flushAsync: "appends_blocks c (flushAsync d c)"
proof -
  let ?c0 = "c\<lparr>pending := []\<rparr>"
  let ?c1 = "ensureTextBlock ?c0"
  have "appends_blocks c ?c1"
    using appends_ensureTextBlock [of ?c0] by (simp add: appends_blocks_def)
  then have "appends_blocks c
      (send f (?c1\<lparr>totalOutputTokens := k\<rparr>))" if "\<not> is_closing f" for f k
    using that by (auto simp add: appends_blocks_def closing_frames_def send_def)
  then show ?thesis
    by (simp add: flushAsync_def flushText_def Let_def appends_blocks_refl)
qed

lemma appends_endTextBlock: "appends_blocks c (endTextBlock c)"
  by (simp add: endTextBlock_def appends_blocks_def closing_frames_def send_def)

lemma appends_endThinkingBlock: "appends_blocks c (endThinkingBlock c)"
  by (simp add: endThinkingBlock_def Let_def appends_blocks_def closing_frames_def send_def)

lemma finish_frames:
  assumes "\<not> finished c"
  shows "\<exists>gs r n. sent (finish d c) = sent c @ gs @ [MessageDelta r n, MessageStop]
           \<and> closing_frames gs = []"
proof -
  let ?c1 = "c\<lparr>finished := True\<rparr>"
  let ?c4 = "endThinkingBlock (endTextBlock (flushAsync d ?c1))"
  have "appends_blocks c ?c1" by (simp add: appends_blocks_refl)
  then have "appends_blocks c ?c4"
    by (metis appends_blocks_trans appends_flushAsync appends_endTextBlock
        appends_endThinkingBlock)
  then obtain gs where g: "sent ?c4 = sent c @ gs" "closing_frames gs = []"
    unfolding appends_blocks_def by blast
  have "sent (finish d c) = sent ?c4 @
      [MessageDelta (if hasToolCalls ?c4 then ToolUse else EndTurn) (adjustedOutputTokens ?c4),
       MessageStop]"
    using assms by (simp add: finish_def Let_def send_def)
  then show ?thesis using g by auto
qed

lemma finished_finish: "finished (finish d c)"
proof (cases "finished c")
  case True
  then show ?thesis by (simp add: finish_def)
next
  case False
  have "finished (endThinkingBlock (endTextBlock (flushAsync d (c\<lparr>finished := True\<rparr>))))"
    using close_flushAsync close_endTextBlock close_endThinkingBlock
    by (simp add: endThinkingBlock_def endTextBlock_def flushAsync_def flushText_def
        ensureTextBlock_def Let_def send_def)
  then show ?thesis using False by (simp add: finish_def Let_def send_def)
qed



















subsection \<open>A worked response\<close>

lemma example_run:
  "sent (run example_deps (Fin 1) ''r1'' 0 example_acts) =
     [MessageStart ''msg_r1'' 0, Ping, ContentBlockStart 0 ThinkingBlock,
      ContentBlockDelta 0 (ThinkingDelta ''weigh''),
      ContentBlockDelta 0 (ThinkingDelta ''ing''),
      ContentBlockDelta 0 (SignatureDelta []), ContentBlockStop 0,
      ContentBlockStart 1 TextBlock,
      ContentBlockDelta 1 (TextDelta ''Answer: 4''), ContentBlockStop 1,
      ContentBlockStart 2 (ToolUseBlock ''toolu_A'' ''get_weather''),
      ContentBlockDelta 2 (InputJsonDelta ''{}''), ContentBlockStop 2,
      MessageDelta ToolUse 19, MessageStop]"
  by (simp add: example_deps_def example_acts_def run_def init_def new_ClaudeStream_def
      handleEvents_def flushAsync_def flushText_def ensureTextBlock_def endTextBlock_def
      ensureThinkingBlock_def endThinkingBlock_def emitThinking_def emitToolCall_def
      aggregator_add_def finish_def adjustedOutputTokens_def send_def Let_def slices.simps
      to_double_def max_threshold_def min_threshold_def)

subsection \<open>Block indices\<close>

text \<open>
  C2. In the frames one \<open>ClaudeStream\<close> has sent, after any sequence of
  \<open>handleEvents\<close> calls and timer flushes: the indices of the
  \<open>content_block_start\<close> frames are strictly increasing, the first one is 0, none
  occurs twice, and every \<open>content_block_delta\<close> and \<open>content_block_stop\<close> carries
  the index of a block that was started before it and not stopped since
  (\<open>blocks_ok\<close>).
\<close>

theorem block_index_discipline:
  "sorted_wrt (<) (start_indices (sent (run d mult rid inTok acts))) \<and>
   (start_indices (sent (run d mult rid inTok acts)) \<noteq> [] \<longrightarrow>
      hd (start_indices (sent (run d mult rid inTok acts))) = 0) \<and>
   distinct (start_indices (sent (run d mult rid inTok acts))) \<and>
   blocks_ok [] (sent (run d mult rid inTok acts))"
proof -
  let ?c = "run d mult rid inTok acts"
  have i: "writer_inv ?c" by (rule inv_run)
  then have s: "start_indices (sent ?c) = map int [0..<nat (nextBlockIndex ?c)]"
    and b: "blocks_ok [] (sent ?c)"
    by (simp_all add: writer_inv_def)
  have "hd (map int [0..<n]) = 0" if "map int [0..<n] \<noteq> []" for n
    using that by (cases n) (simp_all add: upt_rec hd_map)
  moreover have "distinct (map int [0..<n])" for n
    by (simp add: distinct_map)
  ultimately show ?thesis using s b by (simp add: sorted_wrt_map_int_upt)
qed

theorem block_index_discipline_witness:
  "start_indices (sent (run example_deps (Fin 1) ''r1'' 0 example_acts)) \<noteq> [] \<and>
   hd (start_indices (sent (run example_deps (Fin 1) ''r1'' 0 example_acts))) = 0 \<and>
   start_indices (sent (run example_deps (Fin 1) ''r1'' 0 example_acts)) = [0, 1, 2] \<and>
   blocks_ok [] (sent (run example_deps (Fin 1) ''r1'' 0 example_acts))"
  using block_index_discipline [of example_deps "Fin 1" "''r1''" 0 example_acts]
  by (simp add: example_run)

subsection \<open>The stop reason\<close>



subsection \<open>finish is idempotent\<close>

text \<open>
  C8. An \<open>End\<close> event handled by a stream that is not yet finished appends frames
  that end with \<open>message_delta\<close> followed by \<open>message_stop\<close>, and no other
  \<open>message_delta\<close> or \<open>message_stop\<close> before these two. Whatever is handled
  afterwards, a later \<open>End\<close> event leaves the stream as it is and sends no frame.
  So the frames of a stream hold at most one \<open>message_delta\<close> and at most one
  \<open>message_stop\<close>.
\<close>

theorem finish_idempotent:
  "(\<not> finished c \<longrightarrow>
      (\<exists>gs r n. sent (handleEvent d c End) = sent c @ gs @ [MessageDelta r n, MessageStop]
         \<and> closing_frames gs = [])) \<and>
   handleEvent d (foldl (act d) (handleEvent d c End) acts) End
     = foldl (act d) (handleEvent d c End) acts \<and>
   length (filter is_message_delta (sent (run d mult rid inTok acts'))) \<le> 1 \<and>
   length (filter (\<lambda>f. f = MessageStop) (sent (run d mult rid inTok acts'))) \<le> 1"
proof -
  have a: "\<not> finished c \<longrightarrow>
      (\<exists>gs r n. sent (handleEvent d c End) = sent c @ gs @ [MessageDelta r n, MessageStop]
         \<and> closing_frames gs = [])"
    using finish_frames [of c d] by simp
  have "finished (handleEvent d c End)"
    by (simp add: finished_finish)
  then have "finished (foldl (act d) (handleEvent d c End) acts)"
    by (rule finished_acts)
  then have b: "handleEvent d (foldl (act d) (handleEvent d c End) acts) End
     = foldl (act d) (handleEvent d c End) acts"
    by (simp add: finish_def)
  let ?fs = "sent (run d mult rid inTok acts')"
  have cl: "filter is_closing ?fs = [] \<or> (\<exists>r n. filter is_closing ?fs = [MessageDelta r n, MessageStop])"
    using close_run [of d mult rid inTok acts'] by (auto simp add: inv_close_def)
  have md: "filter is_message_delta fs = filter is_message_delta (filter is_closing fs)" for fs
  proof (induction fs)
    case Nil
    show ?case by simp
  next
    case (Cons f fs)
    then show ?case by (cases f) simp_all
  qed
  have ms: "filter (\<lambda>f. f = MessageStop) fs
      = filter (\<lambda>f. f = MessageStop) (filter is_closing fs)" for fs
  proof (induction fs)
    case Nil
    show ?case by simp
  next
    case (Cons f fs)
    then show ?case by (cases f) simp_all
  qed
  have g: "length (filter is_message_delta xs) \<le> 1 \<and>
      length (filter (\<lambda>f. f = MessageStop) xs) \<le> 1"
    if "xs = [] \<or> (\<exists>r n. xs = [MessageDelta r n, MessageStop])" for xs
    using that by auto
  show ?thesis using a b g [OF cl] md [of ?fs] ms [of ?fs] by (simp del: filter_filter)
qed

theorem finish_idempotent_witness:
  "\<not> finished (init (new_ClaudeStream (Fin 1) ''r1'' 0)) \<and>
   sent (handleEvent example_deps (init (new_ClaudeStream (Fin 1) ''r1'' 0)) End) =
     sent (init (new_ClaudeStream (Fin 1) ''r1'' 0)) @ [] @ [MessageDelta EndTurn 1, MessageStop] \<and>
   handleEvent example_deps
     (foldl (act example_deps)
        (handleEvent example_deps (init (new_ClaudeStream (Fin 1) ''r1'' 0)) End)
        [HandleEvents [Text ''late''], TimerFires]) End =
     foldl (act example_deps)
        (handleEvent example_deps (init (new_ClaudeStream (Fin 1) ''r1'' 0)) End)
        [HandleEvents [Text ''late''], TimerFires] \<and>
   length (filter is_message_delta (sent (run example_deps (Fin 1) ''r1'' 0 example_acts))) = 1"
proof -
  let ?c = "init (new_ClaudeStream (Fin 1) ''r1'' 0)"
  have a: "\<not> finished ?c"
    by (simp add: init_def new_ClaudeStream_def send_def)
  have b: "sent (handleEvent example_deps ?c End) =
      sent ?c @ [] @ [MessageDelta EndTurn 1, MessageStop]"
    by (simp add: example_deps_def init_def new_ClaudeStream_def
      flushAsync_def flushText_def ensureTextBlock_def endTextBlock_def endThinkingBlock_def
      finish_def adjustedOutputTokens_def send_def Let_def
      to_double_def max_threshold_def min_threshold_def)
  have c: "length (filter is_message_delta
      (sent (run example_deps (Fin 1) ''r1'' 0 example_acts))) = 1"
    by (simp add: example_run)
  note t = finish_idempotent [of ?c example_deps "[HandleEvents [Text ''late''], TimerFires]"
      "Fin 1" "''r1''" 0 example_acts]
  from t [THEN conjunct2, THEN conjunct1] a b c show ?thesis by blast
qed

section \<open>Proofs about the configuration\<close>









subsection \<open>parseTokenMultiplier\<close>



subsection \<open>loadConfig\<close>

text \<open>
  No numbered upstream is loaded exactly when the first \<open>UPSTREAM_CONFIG_1_*\<close> entry
  lacks its base URL, its request model or its name model.
\<close>

lemma loadUpstreamConfigs_empty_iff:
  "loadUpstreamConfigs env = [] \<longleftrightarrow>
     \<not> (truthy (env_get env (upstream_key 1 ''BASE_URL'')) \<and>
        truthy (env_get env (upstream_key 1 ''REQUEST_MODEL'')) \<and>
        truthy (env_get env (upstream_key 1 ''NAME_MODEL'')))"
proof -
  have grow: "loadUpstreamConfigs_loop env i configs \<noteq> []" if "configs \<noteq> []" for i configs
    using that
  proof (induction env i configs rule: loadUpstreamConfigs_loop.induct)
    case (1 env i configs)
    show ?case
      using "1.prems" "1.IH"
      by (subst loadUpstreamConfigs_loop.simps) (auto split: option.splits)
  qed
  show ?thesis
    unfolding loadUpstreamConfigs_def
    by (subst loadUpstreamConfigs_loop.simps) (auto split: option.splits simp add: grow)
qed

text \<open>
  C10, amended. When no \<open>UPSTREAM_CONFIG_*\<close> entry is loaded and
  \<open>UPSTREAM_BASE_URL\<close> is unset, \<open>loadConfig\<close> returns a configuration whose
  \<open>upstreamBaseUrl\<close> is \<open>http://127.0.0.1:8000/v1/chat/completions\<close>. The error
  \<open>UPSTREAM_BASE_URL must be provided\<close> is thrown exactly when no
  \<open>UPSTREAM_CONFIG_*\<close> entry is loaded and \<open>UPSTREAM_BASE_URL\<close> is set to the empty
  string; \<open>loadConfig\<close> throws nothing else.
\<close>

theorem loadConfig_default_upstream:
  "(loadUpstreamConfigs env = [] \<and> env_get env ''UPSTREAM_BASE_URL'' = None \<longrightarrow>
      (\<exists>config. loadConfig toNumber env = Inr config \<and>
         upstreamBaseUrl config = Some ''http://127.0.0.1:8000/v1/chat/completions'')) \<and>
   (loadConfig toNumber env = Inl UpstreamBaseUrlMissing \<longleftrightarrow>
      loadUpstreamConfigs env = [] \<and> env_get env ''UPSTREAM_BASE_URL'' = Some []) \<and>
   (\<forall>e. loadConfig toNumber env = Inl e \<longrightarrow> e = UpstreamBaseUrlMissing)"
  by (auto simp add: loadConfig_def Let_def or_default_def split: option.splits)

theorem loadConfig_default_upstream_witness:
  "loadUpstreamConfigs [] = [] \<and> env_get [] ''UPSTREAM_BASE_URL'' = None \<and>
   (\<exists>config. loadConfig (\<lambda>s. NaN) [] = Inr config \<and>
      upstreamBaseUrl config = Some ''http://127.0.0.1:8000/v1/chat/completions'')"
proof -
  have a: "loadUpstreamConfigs [] = []"
    by (simp add: loadUpstreamConfigs_def loadUpstreamConfigs_loop.simps env_get_def)
  have b: "env_get [] ''UPSTREAM_BASE_URL'' = None" by (simp add: env_get_def)
  from loadConfig_default_upstream [of "[]" "\<lambda>s. NaN", THEN conjunct1] a b
  show ?thesis by blast
qed

text \<open>
  C10 as stated fails: with \<open>UPSTREAM_BASE_URL\<close> set to the empty string, \<open>??\<close>
  keeps the empty string, and the error branch is taken.
\<close>

theorem loadConfig_empty_base_url_counterexample:
  "loadUpstreamConfigs [(''UPSTREAM_BASE_URL'', [])] = [] \<and>
   loadConfig (\<lambda>s. NaN) [(''UPSTREAM_BASE_URL'', [])] = Inl UpstreamBaseUrlMissing"
proof -
  have a: "loadUpstreamConfigs [(''UPSTREAM_BASE_URL'', [])] = []"
    by (simp add: loadUpstreamConfigs_def loadUpstreamConfigs_loop.simps env_get_def
        upstream_key_def)
  then show ?thesis
    by (simp add: loadConfig_def Let_def or_default_def env_get_def)
qed

section \<open>Proofs about channel resolution\<close>

lemma indexOf_absent: "c \<notin> set s \<Longrightarrow> indexOf s c = - 1"
  by (induction s) auto

lemma indexOf_ge: "- 1 \<le> indexOf s c"
  by (induction s) (auto simp add: Let_def)

lemma indexOf_first: "c \<notin> set a \<Longrightarrow> indexOf (a @ c # b) c = int (length a)"
proof (induction a)
  case Nil
  then show ?case by simp
next
  case (Cons x a)
  then show ?case by (auto simp add: Let_def)
qed

lemma indexOf_present: "c \<in> set s \<Longrightarrow> indexOf s c \<noteq> - 1"
proof -
  assume "c \<in> set s"
  then obtain a b where "s = a @ c # b" "c \<notin> set a"
    by (meson split_list_first)
  then show ?thesis using indexOf_first [of c a b] by simp
qed

lemma slice_prefix: "slice (a @ c # b) 0 (int (length a)) = a"
  by (simp add: slice_def slice_index_def Let_def)

lemma slice_from_suffix: "slice_from (a @ c # b) (int (length a) + 1) = b"
  by (simp add: slice_from_def slice_index_def nat_add_distrib)

lemma parseChannelModel_plus:
  "CHR ''+'' \<notin> set ch \<Longrightarrow> parseChannelModel (ch @ CHR ''+'' # x) = Some (ch, x)"
  using indexOf_first [of "CHR ''+''" ch x] slice_prefix [of ch "CHR ''+''" x]
    slice_from_suffix [of ch "CHR ''+''" x]
  by (simp add: parseChannelModel_def Let_def)

lemma parseChannelModel_none:
  "CHR ''+'' \<notin> set m \<Longrightarrow> parseChannelModel m = None"
  by (simp add: parseChannelModel_def indexOf_absent)

lemma find_none: "(\<forall>c\<in>set xs. \<not> P c) \<Longrightarrow> find P xs = None"
  by (simp add: find_None_iff)

subsection \<open>The order of resolution\<close>

text \<open>
  C4, amended. Both resolvers split the model string at its first \<open>+\<close>. When the text
  before it names a configured channel, both return the first such channel's
  \<open>baseUrl\<close>, with the text after the \<open>+\<close> as the upstream model;
  \<open>selectUpstreamConfig\<close> returns the channel's \<open>apiKey\<close>, \<open>parseChannelInfo\<close> that
  key under the passthrough rule. Otherwise \<open>selectUpstreamConfig\<close> returns the
  first numbered entry whose \<open>nameModel\<close> is the model string, else the legacy
  upstream with \<open>upstreamModelOverride\<close>, if set, else the model string as upstream
  model, and throws when \<open>upstreamBaseUrl\<close> is unset or empty.
  \<open>parseChannelInfo\<close> has no numbered step: for a model with \<open>+\<close> and an unknown
  channel it returns the legacy upstream with the whole model string; for a model
  without \<open>+\<close> it returns the first configured channel with the model string
  unchanged, and only when no channel is configured the legacy upstream with
  \<open>upstreamModelOverride\<close>, if set, else the model string.
\<close>

theorem channel_resolution_order:
  "(CHR ''+'' \<notin> set ch \<and> find (\<lambda>c. ch_name c = ch) (channelConfigs config) = Some channel \<longrightarrow>
      selectUpstreamConfig config (ch @ ''+'' @ x) =
        Inr \<lparr> baseUrl = ch_baseUrl channel, apiKey = ch_apiKey channel,
               requestModel = x, nameModel = ch @ ''+'' @ x \<rparr> \<and>
      parseChannelInfo (ch @ ''+'' @ x) config clientKey =
        \<lparr> r_baseUrl = Some (ch_baseUrl channel),
          r_apiKey = effective_key config clientKey (ch_apiKey channel),
          r_model = x,
          r_protocol = (case ch_protocol channel of
                          None \<Rightarrow> defaultProtocol config | Some p \<Rightarrow> Some p) \<rparr>) \<and>
   (CHR ''+'' \<notin> set ch \<and> (\<forall>c\<in>set (channelConfigs config). ch_name c \<noteq> ch) \<longrightarrow>
      selectUpstreamConfig config (ch @ ''+'' @ x) =
        (case find (\<lambda>u. nameModel u = ch @ ''+'' @ x) (upstreamConfigs config) of
           Some u \<Rightarrow> Inr u
         | None \<Rightarrow> legacy_upstream config (ch @ ''+'' @ x)) \<and>
      parseChannelInfo (ch @ ''+'' @ x) config clientKey =
        \<lparr> r_baseUrl = upstreamBaseUrl config,
          r_apiKey = effective_key config clientKey (upstreamApiKey config),
          r_model = ch @ ''+'' @ x,
          r_protocol = defaultProtocol config \<rparr>) \<and>
   (CHR ''+'' \<notin> set m \<longrightarrow>
      selectUpstreamConfig config m =
        (case find (\<lambda>u. nameModel u = m) (upstreamConfigs config) of
           Some u \<Rightarrow> Inr u
         | None \<Rightarrow> legacy_upstream config m) \<and>
      parseChannelInfo m config clientKey =
        (case channelConfigs config of
           channel # rest \<Rightarrow>
             \<lparr> r_baseUrl = Some (ch_baseUrl channel),
               r_apiKey = effective_key config clientKey (ch_apiKey channel),
               r_model = m,
               r_protocol = (case ch_protocol channel of
                               None \<Rightarrow> defaultProtocol config | Some p \<Rightarrow> Some p) \<rparr>
         | [] \<Rightarrow>
             \<lparr> r_baseUrl = upstreamBaseUrl config,
               r_apiKey = effective_key config clientKey (upstreamApiKey config),
               r_model = or_default (upstreamModelOverride config) m,
               r_protocol = defaultProtocol config \<rparr>))"
proof (intro conjI impI)
  assume h: "CHR ''+'' \<notin> set ch \<and> find (\<lambda>c. ch_name c = ch) (channelConfigs config) = Some channel"
  then have p: "parseChannelModel (ch @ ''+'' @ x) = Some (ch, x)"
    by (simp add: parseChannelModel_plus)
  show "selectUpstreamConfig config (ch @ ''+'' @ x) =
        Inr \<lparr> baseUrl = ch_baseUrl channel, apiKey = ch_apiKey channel,
               requestModel = x, nameModel = ch @ ''+'' @ x \<rparr>"
    using h p by (simp add: selectUpstreamConfig_def)
  have i: "indexOf (ch @ ''+'' @ x) CHR ''+'' = int (length ch)"
    using h indexOf_first [of "CHR ''+''" ch x] by simp
  show "parseChannelInfo (ch @ ''+'' @ x) config clientKey =
        \<lparr> r_baseUrl = Some (ch_baseUrl channel),
          r_apiKey = effective_key config clientKey (ch_apiKey channel),
          r_model = x,
          r_protocol = (case ch_protocol channel of
                          None \<Rightarrow> defaultProtocol config | Some p \<Rightarrow> Some p) \<rparr>"
    using h slice_prefix [of ch "CHR ''+''" x] slice_from_suffix [of ch "CHR ''+''" x]
    unfolding parseChannelInfo_def Let_def i
    by (simp add: effective_key_def)
next
  assume h: "CHR ''+'' \<notin> set ch \<and> (\<forall>c\<in>set (channelConfigs config). ch_name c \<noteq> ch)"
  then have p: "parseChannelModel (ch @ ''+'' @ x) = Some (ch, x)"
    by (simp add: parseChannelModel_plus)
  from h have f: "find (\<lambda>c. ch_name c = ch) (channelConfigs config) = None"
    by (simp add: find_None_iff)
  show "selectUpstreamConfig config (ch @ ''+'' @ x) =
        (case find (\<lambda>u. nameModel u = ch @ ''+'' @ x) (upstreamConfigs config) of
           Some u \<Rightarrow> Inr u
         | None \<Rightarrow> legacy_upstream config (ch @ ''+'' @ x))"
    using p f by (simp add: selectUpstreamConfig_def legacy_upstream_def split: option.splits)
  have i: "indexOf (ch @ ''+'' @ x) CHR ''+'' = int (length ch)"
    using h indexOf_first [of "CHR ''+''" ch x] by simp
  show "parseChannelInfo (ch @ ''+'' @ x) config clientKey =
        \<lparr> r_baseUrl = upstreamBaseUrl config,
          r_apiKey = effective_key config clientKey (upstreamApiKey config),
          r_model = ch @ ''+'' @ x,
          r_protocol = defaultProtocol config \<rparr>"
    using f slice_prefix [of ch "CHR ''+''" x]
    unfolding parseChannelInfo_def Let_def i
    by (simp add: effective_key_def)
next
  assume h: "CHR ''+'' \<notin> set m"
  then show "selectUpstreamConfig config m =
        (case find (\<lambda>u. nameModel u = m) (upstreamConfigs config) of
           Some u \<Rightarrow> Inr u
         | None \<Rightarrow> legacy_upstream config m)"
    by (simp add: selectUpstreamConfig_def parseChannelModel_none legacy_upstream_def
        split: option.splits)
  show "parseChannelInfo m config clientKey =
        (case channelConfigs config of
           channel # rest \<Rightarrow>
             \<lparr> r_baseUrl = Some (ch_baseUrl channel),
               r_apiKey = effective_key config clientKey (ch_apiKey channel),
               r_model = m,
               r_protocol = (case ch_protocol channel of
                               None \<Rightarrow> defaultProtocol config | Some p \<Rightarrow> Some p) \<rparr>
         | [] \<Rightarrow>
             \<lparr> r_baseUrl = upstreamBaseUrl config,
               r_apiKey = effective_key config clientKey (upstreamApiKey config),
               r_model = or_default (upstreamModelOverride config) m,
               r_protocol = defaultProtocol config \<rparr>)"
    using h by (auto simp add: parseChannelInfo_def indexOf_absent effective_key_def Let_def
        split: list.splits)
qed

theorem channel_resolution_order_witness:
  "CHR ''+'' \<notin> set ''openrouter'' \<and>
   find (\<lambda>c. ch_name c = ''openrouter'') (channelConfigs example_config) =
     Some \<lparr> ch_name = ''openrouter'', ch_baseUrl = ''https://openrouter.example/v1'',
            ch_apiKey = Some ''sk-or'', ch_protocol = Some OpenAI \<rparr> \<and>
   selectUpstreamConfig example_config ''openrouter+foo/bar'' =
     Inr \<lparr> baseUrl = ''https://openrouter.example/v1'', apiKey = Some ''sk-or'',
            requestModel = ''foo/bar'', nameModel = ''openrouter+foo/bar'' \<rparr> \<and>
   parseChannelInfo ''openrouter+foo/bar'' example_config (Some ''sk-client'') =
     \<lparr> r_baseUrl = Some ''https://openrouter.example/v1'', r_apiKey = Some ''sk-client'',
       r_model = ''foo/bar'', r_protocol = Some OpenAI \<rparr> \<and>
   CHR ''+'' \<notin> set ''nochannel'' \<and>
   find (\<lambda>c. ch_name c = ''nochannel'') (channelConfigs example_config) = None \<and>
   selectUpstreamConfig example_config ''nochannel+m'' =
     Inr \<lparr> baseUrl = ''https://legacy.example/v1'', apiKey = Some ''sk-legacy'',
            requestModel = ''nochannel+m'', nameModel = ''nochannel+m'' \<rparr> \<and>
   CHR ''+'' \<notin> set ''fast'' \<and>
   selectUpstreamConfig example_config ''fast'' =
     Inr \<lparr> baseUrl = ''https://multi.example/v1'', apiKey = Some ''sk-multi'',
            requestModel = ''gpt-4o'', nameModel = ''fast'' \<rparr>"
  using channel_resolution_order [of "''openrouter''" example_config
      "\<lparr> ch_name = ''openrouter'', ch_baseUrl = ''https://openrouter.example/v1'',
         ch_apiKey = Some ''sk-or'', ch_protocol = Some OpenAI \<rparr>" "''foo/bar''"
      "Some ''sk-client''" "''fast''"]
    channel_resolution_order [of "''nochannel''" example_config
      "\<lparr> ch_name = ''openrouter'', ch_baseUrl = ''https://openrouter.example/v1'',
         ch_apiKey = Some ''sk-or'', ch_protocol = Some OpenAI \<rparr>" "''m''"
      "Some ''sk-client''" "''fast''"]
  by (simp add: example_config_def effective_key_def legacy_upstream_def or_default_def)

text \<open>
  C4 as stated fails for \<open>parseChannelInfo\<close>: \<open>gpt-4\<close> has no \<open>+\<close> and is no
  \<open>nameModel\<close>, and \<open>fast\<close> is the \<open>nameModel\<close> of a numbered entry; for both the
  first channel is returned, neither the legacy upstream nor the numbered entry.
\<close>

theorem default_channel_counterexample:
  "CHR ''+'' \<notin> set ''gpt-4'' \<and>
   find (\<lambda>u. nameModel u = ''gpt-4'') (upstreamConfigs example_config) = None \<and>
   upstreamBaseUrl example_config = Some ''https://legacy.example/v1'' \<and>
   upstreamModelOverride example_config = None \<and>
   parseChannelInfo ''gpt-4'' example_config None =
     \<lparr> r_baseUrl = Some ''https://openrouter.example/v1'', r_apiKey = Some ''sk-or'',
       r_model = ''gpt-4'', r_protocol = Some OpenAI \<rparr> \<and>
   parseChannelInfo ''fast'' example_config None =
     \<lparr> r_baseUrl = Some ''https://openrouter.example/v1'', r_apiKey = Some ''sk-or'',
       r_model = ''fast'', r_protocol = Some OpenAI \<rparr>"
  by (simp add: example_config_def parseChannelInfo_def Let_def)

subsection \<open>An unknown channel\<close>

text \<open>
  C9. For a model string \<open>ch+x\<close> whose prefix \<open>ch\<close>, up to the first \<open>+\<close>, names no
  configured channel, \<open>parseChannelInfo\<close> returns the legacy upstream with the whole
  string \<open>ch+x\<close> as the model (it has no throw), and \<open>selectUpstreamConfig\<close> goes on
  to the \<open>nameModel\<close> match and then to the legacy upstream, with the whole string.
\<close>

theorem unknown_channel_falls_back:
  assumes "CHR ''+'' \<notin> set ch"
    and "\<forall>c\<in>set (channelConfigs config). ch_name c \<noteq> ch"
  shows "parseChannelInfo (ch @ ''+'' @ x) config clientKey =
      \<lparr> r_baseUrl = upstreamBaseUrl config,
        r_apiKey = (if passthroughApiKey config \<and> truthy clientKey then clientKey
                    else upstreamApiKey config),
        r_model = ch @ ''+'' @ x,
        r_protocol = defaultProtocol config \<rparr> \<and>
    selectUpstreamConfig config (ch @ ''+'' @ x) =
      (case find (\<lambda>u. nameModel u = ch @ ''+'' @ x) (upstreamConfigs config) of
         Some u \<Rightarrow> Inr u
       | None \<Rightarrow>
           (case upstreamBaseUrl config of
              None \<Rightarrow> Inl (NoUpstreamConfiguration (ch @ ''+'' @ x))
            | Some b \<Rightarrow>
                if b = [] then Inl (NoUpstreamConfiguration (ch @ ''+'' @ x))
                else Inr \<lparr> baseUrl = b, apiKey = upstreamApiKey config,
                           requestModel =
                             or_default (upstreamModelOverride config) (ch @ ''+'' @ x),
                           nameModel = ch @ ''+'' @ x \<rparr>))"
proof
  from assms(2) have f: "find (\<lambda>c. ch_name c = ch) (channelConfigs config) = None"
    by (simp add: find_None_iff)
  have i: "indexOf (ch @ ''+'' @ x) CHR ''+'' = int (length ch)"
    using assms(1) indexOf_first [of "CHR ''+''" ch x] by simp
  show "parseChannelInfo (ch @ ''+'' @ x) config clientKey =
      \<lparr> r_baseUrl = upstreamBaseUrl config,
        r_apiKey = (if passthroughApiKey config \<and> truthy clientKey then clientKey
                    else upstreamApiKey config),
        r_model = ch @ ''+'' @ x,
        r_protocol = defaultProtocol config \<rparr>"
    using f slice_prefix [of ch "CHR ''+''" x]
    unfolding parseChannelInfo_def Let_def i
    by simp
  have p: "parseChannelModel (ch @ CHR ''+'' # x) = Some (ch, x)"
    using assms(1) by (rule parseChannelModel_plus)
  show "selectUpstreamConfig config (ch @ ''+'' @ x) =
      (case find (\<lambda>u. nameModel u = ch @ ''+'' @ x) (upstreamConfigs config) of
         Some u \<Rightarrow> Inr u
       | None \<Rightarrow>
           (case upstreamBaseUrl config of
              None \<Rightarrow> Inl (NoUpstreamConfiguration (ch @ ''+'' @ x))
            | Some b \<Rightarrow>
                if b = [] then Inl (NoUpstreamConfiguration (ch @ ''+'' @ x))
                else Inr \<lparr> baseUrl = b, apiKey = upstreamApiKey config,
                           requestModel =
                             or_default (upstreamModelOverride config) (ch @ ''+'' @ x),
                           nameModel = ch @ ''+'' @ x \<rparr>))"
    using p f by (simp add: selectUpstreamConfig_def split: option.splits)
qed

theorem unknown_channel_falls_back_witness:
  "CHR ''+'' \<notin> set ''nochannel'' \<and>
   find (\<lambda>c. ch_name c = ''nochannel'') (channelConfigs example_config) = None \<and>
   parseChannelInfo ''nochannel+gpt-x'' example_config None =
      \<lparr> r_baseUrl = Some ''https://legacy.example/v1'', r_apiKey = Some ''sk-legacy'',
        r_model = ''nochannel+gpt-x'', r_protocol = Some Anthropic \<rparr> \<and>
   selectUpstreamConfig example_config ''nochannel+gpt-x'' =
      Inr \<lparr> baseUrl = ''https://legacy.example/v1'', apiKey = Some ''sk-legacy'',
             requestModel = ''nochannel+gpt-x'', nameModel = ''nochannel+gpt-x'' \<rparr>"
proof -
  have a: "CHR ''+'' \<notin> set ''nochannel''" by simp
  have b: "\<forall>c\<in>set (channelConfigs example_config). ch_name c \<noteq> ''nochannel''"
    by (simp add: example_config_def)
  from unknown_channel_falls_back [OF a b, of "''gpt-x''" None] a b
  show ?thesis by (simp add: example_config_def or_default_def)
qed

subsection \<open>The passthrough of the client key\<close>




section \<open>Proofs about the end of the stream\<close>

lemma adds_no_tool_use_refl: "sent c' = sent c \<Longrightarrow> adds_no_tool_use c c'"
  by (simp add: adds_no_tool_use_def)

lemma adds_no_tool_use_trans:
  "adds_no_tool_use a b \<Longrightarrow> adds_no_tool_use b c \<Longrightarrow> adds_no_tool_use a c"
  by (auto simp add: adds_no_tool_use_def)

lemma no_tool_flushAsync: "adds_no_tool_use c (flushAsync d c)"
  by (simp add: adds_no_tool_use_def flushAsync_def flushText_def ensureTextBlock_def
      Let_def send_def)

lemma no_tool_endTextBlock: "adds_no_tool_use c (endTextBlock c)"
  by (simp add: adds_no_tool_use_def endTextBlock_def send_def)

lemma no_tool_endThinkingBlock: "adds_no_tool_use c (endThinkingBlock c)"
  by (simp add: adds_no_tool_use_def endThinkingBlock_def Let_def send_def)

lemma no_tool_ping: "adds_no_tool_use c (send Ping c)"
  by (simp add: adds_no_tool_use_def send_def)

lemma tool_start_deltas [simp]:
  "filter is_tool_use_start (map (\<lambda>x. ContentBlockDelta i (g x)) xs) = []"
  by (induction xs) auto

lemma emitToolCall_frames:
  "\<exists>gs i tid. sent (emitToolCall d call c) = sent c @ gs \<and>
     filter is_tool_use_start gs = [ContentBlockStart i (ToolUseBlock tid (name call))]"
  unfolding emitToolCall_def Let_def json_loop
  by (simp add: endTextBlock_def send_def)

lemma tool_call_frames:
  "\<exists>gs i tid. sent (handleEvents d [ToolCall call] c) = sent c @ gs \<and>
     filter is_tool_use_start gs = [ContentBlockStart i (ToolUseBlock tid (name call))]"
proof -
  let ?c3 = "endThinkingBlock (endTextBlock (flushAsync d c))"
  have "adds_no_tool_use c ?c3"
    by (rule adds_no_tool_use_trans [OF adds_no_tool_use_trans
          [OF no_tool_flushAsync no_tool_endTextBlock] no_tool_endThinkingBlock])
  then obtain gs where g: "sent ?c3 = sent c @ gs" "filter is_tool_use_start gs = []"
    unfolding adds_no_tool_use_def by blast
  from emitToolCall_frames [of d call ?c3] obtain hs i tid where
    h: "sent (emitToolCall d call ?c3) = sent ?c3 @ hs"
      "filter is_tool_use_start hs = [ContentBlockStart i (ToolUseBlock tid (name call))]"
    by blast
  have "sent (handleEvents d [ToolCall call] c) = sent c @ (gs @ hs)"
    using g h by (simp add: handleEvents_def)
  moreover have "filter is_tool_use_start (gs @ hs)
      = [ContentBlockStart i (ToolUseBlock tid (name call))]"
    using g h by simp
  ultimately show ?thesis by blast
qed

lemma retry_loop_exhausted:
  "(\<forall>a. attempt \<le> a \<and> a \<le> maxR \<longrightarrow> \<not> succeeded (retry a)) \<Longrightarrow>
     \<exists>n. retry_loop d ka retry maxR attempt c = (False, c\<lparr>sent := sent c @ replicate n Ping\<rparr>)"
proof (induction d ka retry maxR attempt c rule: retry_loop.induct)
  case (1 d ka retry maxR attempt c)
  show ?case
  proof (cases "attempt \<le> maxR")
    case False
    then have "retry_loop d ka retry maxR attempt c = (False, c)"
      by (subst retry_loop.simps) simp
    then have "retry_loop d ka retry maxR attempt c = (False, c\<lparr>sent := sent c @ replicate 0 Ping\<rparr>)"
      by simp
    then show ?thesis by blast
  next
    case True
    with "1.prems" have "\<not> succeeded (retry attempt)" by simp
    then obtain err where e: "retry attempt = RetryFailed err"
      by (cases "retry attempt") auto
    let ?c' = "if attempt < maxR \<and> ka then send Ping c else c"
    have "\<forall>a. attempt + 1 \<le> a \<and> a \<le> maxR \<longrightarrow> \<not> succeeded (retry a)"
      using "1.prems" by simp
    from "1.IH" [OF True e this] obtain n where
      n: "retry_loop d ka retry maxR (attempt + 1) ?c' = (False, ?c'\<lparr>sent := sent ?c' @ replicate n Ping\<rparr>)"
      by blast
    have r: "retry_loop d ka retry maxR attempt c = retry_loop d ka retry maxR (attempt + 1) ?c'"
      using True e by (subst retry_loop.simps) simp
    show ?thesis
    proof (cases "attempt < maxR \<and> ka")
      case True
      then have "?c'\<lparr>sent := sent ?c' @ replicate n Ping\<rparr> = c\<lparr>sent := sent c @ replicate (Suc n) Ping\<rparr>"
        by (simp add: send_def replicate_app_Cons_same)
      then show ?thesis using r n by metis
    next
      case False
      then have "?c'\<lparr>sent := sent ?c' @ replicate n Ping\<rparr> = c\<lparr>sent := sent c @ replicate n Ping\<rparr>"
        by auto
      then show ?thesis using r n by metis
    qed
  qed
qed

lemma retry_loop_succeeds:
  "attempt \<le> a \<Longrightarrow> a \<le> maxR \<Longrightarrow> succeeded (retry a) \<Longrightarrow>
     \<exists>b call gs i tid. attempt \<le> b \<and> b \<le> a \<and> retry b = RetrySucceeded call \<and>
        (\<forall>k. attempt \<le> k \<and> k < b \<longrightarrow> \<not> succeeded (retry k)) \<and>
        fst (retry_loop d ka retry maxR attempt c) \<and>
        sent (snd (retry_loop d ka retry maxR attempt c)) = sent c @ gs \<and>
        filter is_tool_use_start gs = [ContentBlockStart i (ToolUseBlock tid (name call))]"
proof (induction d ka retry maxR attempt c rule: retry_loop.induct)
  case (1 d ka retry maxR attempt c)
  from "1.prems" have le: "attempt \<le> maxR" by simp
  show ?case
  proof (cases "retry attempt")
    case (RetrySucceeded call)
    then have r: "retry_loop d ka retry maxR attempt c = (True, handleEvents d [ToolCall call] c)"
      using le by (subst retry_loop.simps) simp
    from tool_call_frames [of d call c] obtain gs i tid where
      "sent (handleEvents d [ToolCall call] c) = sent c @ gs"
      "filter is_tool_use_start gs = [ContentBlockStart i (ToolUseBlock tid (name call))]"
      by blast
    then have "attempt \<le> attempt \<and> attempt \<le> a \<and> retry attempt = RetrySucceeded call \<and>
        (\<forall>k. attempt \<le> k \<and> k < attempt \<longrightarrow> \<not> succeeded (retry k)) \<and>
        fst (retry_loop d ka retry maxR attempt c) \<and>
        sent (snd (retry_loop d ka retry maxR attempt c)) = sent c @ gs \<and>
        filter is_tool_use_start gs = [ContentBlockStart i (ToolUseBlock tid (name call))]"
      using r RetrySucceeded "1.prems"(1) by auto
    then show ?thesis by blast
  next
    case (RetryFailed err)
    let ?c' = "if attempt < maxR \<and> ka then send Ping c else c"
    have ne: "attempt \<noteq> a" using RetryFailed "1.prems"(3) by auto
    then have lt: "attempt + 1 \<le> a" using "1.prems"(1) by simp
    from "1.IH" [OF le RetryFailed lt "1.prems"(2) "1.prems"(3)]
    obtain b call gs i tid where
      b: "attempt + 1 \<le> b" "b \<le> a" "retry b = RetrySucceeded call"
        "\<forall>k. attempt + 1 \<le> k \<and> k < b \<longrightarrow> \<not> succeeded (retry k)"
        "fst (retry_loop d ka retry maxR (attempt + 1) ?c')"
        "sent (snd (retry_loop d ka retry maxR (attempt + 1) ?c')) = sent ?c' @ gs"
        "filter is_tool_use_start gs = [ContentBlockStart i (ToolUseBlock tid (name call))]"
      by blast
    have r: "retry_loop d ka retry maxR attempt c = retry_loop d ka retry maxR (attempt + 1) ?c'"
      using le RetryFailed by (subst retry_loop.simps) simp
    obtain ps where ps: "sent ?c' = sent c @ ps" "filter is_tool_use_start ps = []"
      by (cases "attempt < maxR \<and> ka") (auto simp add: send_def)
    have k: "\<forall>k. attempt \<le> k \<and> k < b \<longrightarrow> \<not> succeeded (retry k)"
    proof (intro allI impI)
      fix k assume "attempt \<le> k \<and> k < b"
      then show "\<not> succeeded (retry k)"
        using b(4) RetryFailed by (cases "k = attempt") auto
    qed
    have "sent (snd (retry_loop d ka retry maxR attempt c)) = sent c @ (ps @ gs)"
      using r b(6) ps by simp
    moreover have "filter is_tool_use_start (ps @ gs)
        = [ContentBlockStart i (ToolUseBlock tid (name call))]"
      using ps b(7) by simp
    moreover have "attempt \<le> b" using b(1) by simp
    ultimately have "attempt \<le> b \<and> b \<le> a \<and> retry b = RetrySucceeded call \<and>
        (\<forall>k. attempt \<le> k \<and> k < b \<longrightarrow> \<not> succeeded (retry k)) \<and>
        fst (retry_loop d ka retry maxR attempt c) \<and>
        sent (snd (retry_loop d ka retry maxR attempt c)) = sent c @ (ps @ gs) \<and>
        filter is_tool_use_start (ps @ gs) = [ContentBlockStart i (ToolUseBlock tid (name call))]"
      using b(2,3,5) k r by simp
    then show ?thesis by blast
  qed
qed


lemma text_event_pending:
  "pending (handleEvents d [Text content] c) = pending c @ content \<and>
   textBlockOpen (handleEvents d [Text content] c) = textBlockOpen c \<and>
   adds_no_tool_use c (handleEvents d [Text content] c)"
  using no_tool_endThinkingBlock [of c]
  by (simp add: handleEvents_def aggregator_add_def endThinkingBlock_def Let_def send_def
      adds_no_tool_use_def)

lemma flush_frames:
  "pending c \<noteq> [] \<Longrightarrow>
     \<exists>i. sent (flushAsync d c) =
       sent c @ (if textBlockOpen c then [] else [ContentBlockStart i TextBlock]) @
       [ContentBlockDelta i (TextDelta (pending c))]"
  by (simp add: flushAsync_def flushText_def ensureTextBlock_def Let_def send_def)


subsection \<open>Retry after a failed tool call\<close>

text \<open>
  After the stream has ended with a \<open>ToolCallFailed\<close> event and the retry branch
  is taken: if some attempt from 1 to \<open>maxRetries\<close> succeeds, the handler sends
  frames that start exactly one tool_use block, for the call of the first attempt
  that succeeds. If every attempt fails, the handler starts no tool_use block and
  hands the raw failed text to the writer as a \<open>Text\<close> event, which only appends it
  to the text waiting in the aggregator; a flush of the aggregator, should one
  come, would send it as a \<open>text_delta\<close>.
\<close>

lemma handle_stream_end_outcome:
  fixes d :: "'a deps"
  defines "c' \<equiv> \<lambda>toolCallRetry hasDelimiter hasMessages hasUrl retry events c.
    handle_stream_end d toolCallRetry hasDelimiter hasMessages hasUrl retry events c"
  assumes rt: "retries toolCallRetry hasDelimiter hasMessages hasUrl events content priorText"
  shows
    "((\<exists>a. 1 \<le> a \<and> a \<le> max_retries toolCallRetry \<and> succeeded (retry content priorText a)) \<longrightarrow>
        (\<exists>gs i tid call a.
           sent (c' toolCallRetry hasDelimiter hasMessages hasUrl retry events c) = sent c @ gs \<and>
           filter is_tool_use_start gs = [ContentBlockStart i (ToolUseBlock tid (name call))] \<and>
           1 \<le> a \<and> a \<le> max_retries toolCallRetry \<and>
           retry content priorText a = RetrySucceeded call \<and>
           (\<forall>k. 1 \<le> k \<and> k < a \<longrightarrow> \<not> succeeded (retry content priorText k)))) \<and>
     ((\<forall>a. 1 \<le> a \<and> a \<le> max_retries toolCallRetry \<longrightarrow>
          \<not> succeeded (retry content priorText a)) \<longrightarrow>
        adds_no_tool_use c (c' toolCallRetry hasDelimiter hasMessages hasUrl retry events c) \<and>
        pending (c' toolCallRetry hasDelimiter hasMessages hasUrl retry events c)
          = pending c @ content \<and>
        (content \<noteq> [] \<longrightarrow>
           (\<exists>i. sent (flushAsync d (c' toolCallRetry hasDelimiter hasMessages hasUrl retry events c)) =
              sent (c' toolCallRetry hasDelimiter hasMessages hasUrl retry events c) @
              (if textBlockOpen c then [] else [ContentBlockStart i TextBlock]) @
              [ContentBlockDelta i (TextDelta (pending c @ content))])))"
proof -
  from rt obtain cfg where cfg: "toolCallRetry = Some cfg" "enabled cfg"
    and f: "find is_tool_call_failed events = Some (ToolCallFailed content priorText)"
    and flags: "hasDelimiter" "hasMessages" "hasUrl"
    by (auto simp add: retries_def split: option.splits)
  let ?ka = "keepAlive cfg \<noteq> Some False"
  let ?c1 = "if ?ka then send Ping c else c"
  let ?maxR = "max_retries toolCallRetry"
  let ?loop = "retry_loop d ?ka (retry content priorText) ?maxR 1 ?c1"
  let ?res = "c' toolCallRetry hasDelimiter hasMessages hasUrl retry events c"
  have m: "?maxR = (case maxRetries cfg of None \<Rightarrow> 1 | Some n \<Rightarrow> if n = 0 then 1 else n)"
    using cfg by (simp add: max_retries_def)
  have res: "?res = (if \<not> fst ?loop then handleEvents d [Text content] (snd ?loop) else snd ?loop)"
    unfolding c'_def handle_stream_end_def f m
    using cfg flags by (simp add: Let_def case_prod_beta)
  obtain ps where ps: "sent ?c1 = sent c @ ps" "filter is_tool_use_start ps = []"
    by (cases ?ka) (auto simp add: send_def)
  have c1: "pending ?c1 = pending c" "textBlockOpen ?c1 = textBlockOpen c"
    by (simp_all add: send_def)
  show ?thesis
  proof (intro conjI impI)
    assume "\<exists>a. 1 \<le> a \<and> a \<le> ?maxR \<and> succeeded (retry content priorText a)"
    then obtain a where a: "1 \<le> a" "a \<le> ?maxR" "succeeded (retry content priorText a)"
      by blast
    from retry_loop_succeeds [where retry = "retry content priorText" and attempt = 1
        and a = a and maxR = ?maxR and d = d and ka = ?ka and c = ?c1] a
    obtain b call gs i tid where
      b: "1 \<le> b" "b \<le> a" "retry content priorText b = RetrySucceeded call"
        "\<forall>k. 1 \<le> k \<and> k < b \<longrightarrow> \<not> succeeded (retry content priorText k)"
        "fst ?loop" "sent (snd ?loop) = sent ?c1 @ gs"
        "filter is_tool_use_start gs = [ContentBlockStart i (ToolUseBlock tid (name call))]"
      by blast
    have "sent ?res = sent c @ (ps @ gs)" using res b(5,6) ps by simp
    moreover have "filter is_tool_use_start (ps @ gs)
        = [ContentBlockStart i (ToolUseBlock tid (name call))]"
      using ps b(7) by simp
    moreover have "b \<le> ?maxR" using b(2) a(2) by simp
    ultimately have "sent ?res = sent c @ (ps @ gs) \<and>
           filter is_tool_use_start (ps @ gs) = [ContentBlockStart i (ToolUseBlock tid (name call))] \<and>
           1 \<le> b \<and> b \<le> ?maxR \<and>
           retry content priorText b = RetrySucceeded call \<and>
           (\<forall>k. 1 \<le> k \<and> k < b \<longrightarrow> \<not> succeeded (retry content priorText k))"
      using b(1,3,4) by simp
    then show "\<exists>gs i tid call a.
           sent ?res = sent c @ gs \<and>
           filter is_tool_use_start gs = [ContentBlockStart i (ToolUseBlock tid (name call))] \<and>
           1 \<le> a \<and> a \<le> ?maxR \<and>
           retry content priorText a = RetrySucceeded call \<and>
           (\<forall>k. 1 \<le> k \<and> k < a \<longrightarrow> \<not> succeeded (retry content priorText k))"
      by blast
  next
    assume ex: "\<forall>a. 1 \<le> a \<and> a \<le> ?maxR \<longrightarrow> \<not> succeeded (retry content priorText a)"
    from retry_loop_exhausted [where retry = "retry content priorText" and attempt = 1
        and maxR = ?maxR and d = d and ka = ?ka and c = ?c1] ex obtain n where
      n: "?loop = (False, ?c1\<lparr>sent := sent ?c1 @ replicate n Ping\<rparr>)" by blast
    let ?c2 = "?c1\<lparr>sent := sent ?c1 @ replicate n Ping\<rparr>"
    have r2: "?res = handleEvents d [Text content] ?c2" using res n by simp
    have "filter is_tool_use_start (replicate n Ping) = []" by (induction n) simp_all
    then have "adds_no_tool_use c ?c2"
      using ps by (simp add: adds_no_tool_use_def)
    moreover have t: "pending (handleEvents d [Text content] ?c2) = pending ?c2 @ content"
      "textBlockOpen (handleEvents d [Text content] ?c2) = textBlockOpen ?c2"
      "adds_no_tool_use ?c2 (handleEvents d [Text content] ?c2)"
      using text_event_pending [of d content ?c2] by simp_all
    ultimately show "adds_no_tool_use c ?res"
      unfolding r2 using adds_no_tool_use_trans by blast
    show p: "pending ?res = pending c @ content"
      unfolding r2 using t(1) c1(1) by simp
    have o: "textBlockOpen ?res = textBlockOpen c"
      unfolding r2 using t(2) c1(2) by simp
    show "\<exists>i. sent (flushAsync d ?res) = sent ?res @
              (if textBlockOpen c then [] else [ContentBlockStart i TextBlock]) @
              [ContentBlockDelta i (TextDelta (pending c @ content))]"
      if "content \<noteq> []"
    proof -
      have "pending ?res \<noteq> []" using p that by simp
      from flush_frames [OF this, of d] show ?thesis using p o by simp
    qed
  qed
qed

text \<open>
  What the handler adds in the retry branch when every attempt fails: pings, and the
  signature and stop of a thinking block that was open; the stream is as finished as it was.
\<close>

lemma text_event_frames:
  "\<exists>gs. sent (handleEvents d [Text content] c) = sent c @ gs \<and>
        (gs = [] \<or> (\<exists>i. gs = [ContentBlockDelta i (SignatureDelta []), ContentBlockStop i])) \<and>
        finished (handleEvents d [Text content] c) = finished c"
  by (cases "thinkingBlockOpen c")
     (simp_all add: handleEvents_def aggregator_add_def endThinkingBlock_def send_def Let_def)

lemma retry_exhausted_frames:
  assumes rt: "retries toolCallRetry hasDelimiter hasMessages hasUrl events content priorText"
    and ex: "\<forall>a. 1 \<le> a \<and> a \<le> max_retries toolCallRetry \<longrightarrow>
          \<not> succeeded (retry content priorText a)"
  shows "\<exists>n gs. sent (handle_stream_end d toolCallRetry hasDelimiter hasMessages hasUrl retry events c)
           = sent c @ replicate n Ping @ gs \<and>
         (gs = [] \<or> (\<exists>i. gs = [ContentBlockDelta i (SignatureDelta []), ContentBlockStop i])) \<and>
         finished (handle_stream_end d toolCallRetry hasDelimiter hasMessages hasUrl retry events c)
           = finished c"
proof -
  from rt obtain cfg where cfg: "toolCallRetry = Some cfg" "enabled cfg"
    and f: "find is_tool_call_failed events = Some (ToolCallFailed content priorText)"
    and flags: "hasDelimiter" "hasMessages" "hasUrl"
    by (auto simp add: retries_def split: option.splits)
  let ?ka = "keepAlive cfg \<noteq> Some False"
  let ?c1 = "if ?ka then send Ping c else c"
  let ?maxR = "max_retries toolCallRetry"
  let ?loop = "retry_loop d ?ka (retry content priorText) ?maxR 1 ?c1"
  let ?res = "handle_stream_end d toolCallRetry hasDelimiter hasMessages hasUrl retry events c"
  have m: "?maxR = (case maxRetries cfg of None \<Rightarrow> 1 | Some n \<Rightarrow> if n = 0 then 1 else n)"
    using cfg by (simp add: max_retries_def)
  have res: "?res = (if \<not> fst ?loop then handleEvents d [Text content] (snd ?loop) else snd ?loop)"
    unfolding handle_stream_end_def f m
    using cfg flags by (simp add: Let_def case_prod_beta)
  from retry_loop_exhausted [where retry = "retry content priorText" and attempt = 1
      and maxR = ?maxR and d = d and ka = ?ka and c = ?c1] ex obtain n where
    n: "?loop = (False, ?c1\<lparr>sent := sent ?c1 @ replicate n Ping\<rparr>)" by blast
  let ?c2 = "?c1\<lparr>sent := sent ?c1 @ replicate n Ping\<rparr>"
  have r2: "?res = handleEvents d [Text content] ?c2" using res n by simp
  obtain k where k: "sent ?c2 = sent c @ replicate k Ping" "finished ?c2 = finished c"
  proof (cases ?ka)
    case True
    then have "sent ?c2 = sent c @ replicate (Suc n) Ping" "finished ?c2 = finished c"
      by (simp_all add: send_def)
    then show ?thesis using that by blast
  next
    case False
    then have "sent ?c2 = sent c @ replicate n Ping" "finished ?c2 = finished c"
      by simp_all
    then show ?thesis using that by blast
  qed
  have h: "\<exists>gs. sent (handleEvents d [Text content] ?c2) = sent ?c2 @ gs \<and>
        (gs = [] \<or> (\<exists>i. gs = [ContentBlockDelta i (SignatureDelta []), ContentBlockStop i])) \<and>
        finished (handleEvents d [Text content] ?c2) = finished ?c2"
    by (rule text_event_frames)
  then obtain gs where gs: "sent (handleEvents d [Text content] ?c2) = sent ?c2 @ gs"
      "gs = [] \<or> (\<exists>i. gs = [ContentBlockDelta i (SignatureDelta []), ContentBlockStop i])"
      "finished (handleEvents d [Text content] ?c2) = finished ?c2"
    by blast
  have "sent ?res = sent c @ replicate k Ping @ gs \<and>
      (gs = [] \<or> (\<exists>i. gs = [ContentBlockDelta i (SignatureDelta []), ContentBlockStop i])) \<and>
      finished ?res = finished c"
    unfolding r2 using gs k by simp
  then show ?thesis by blast
qed










section \<open>Proofs about the parser\<close>

lemma held_suffix: "suffix (held ms b) b"
  by (induction b) (auto simp add: suffix_Cons)

lemma held_partial: "held ms b = [] \<or> (\<exists>m\<in>set ms. strict_prefix (held ms b) m)"
  by (induction b) (auto simp add: list_ex_iff)

lemma held_longest:
  "suffix s b \<Longrightarrow> m \<in> set ms \<Longrightarrow> strict_prefix s m \<Longrightarrow> length s \<le> length (held ms b)"
proof (induction b)
  case Nil
  then show ?case by simp
next
  case (Cons c cs)
  show ?case
  proof (cases "list_ex (\<lambda>m. strict_prefix (c # cs) m) ms")
    case True
    then show ?thesis using suffix_length_le [OF Cons.prems(1)] by simp
  next
    case False
    then have "s \<noteq> c # cs" using Cons.prems(2,3) by (auto simp add: list_ex_iff)
    then have "suffix s cs" using Cons.prems(1) by (simp add: suffix_Cons)
    then show ?thesis using Cons.IH Cons.prems(2,3) False by simp
  qed
qed

lemma before_end_append: "suffix h b \<Longrightarrow> before_end b h @ h = b"
  by (auto simp add: before_end_def suffix_def)

lemma before_end_eq: "before_end (u @ m) m = u"
  by (simp add: before_end_def)

text \<open>An occurrence that starts before a marker at the end of b.\<close>

lemma occurrence_cases:
  assumes "prefix m' (drop i (b @ x))" "i < length b"
  shows "sublist m' (butlast b) \<or> (suffix m' b \<and> length m' = length b - i) \<or>
         strict_prefix (drop i b) m'"
proof -
  from assms(1) obtain ss where "drop i (b @ x) = m' @ ss" by (auto simp add: prefix_def)
  then have d: "drop i b @ x = m' @ ss" using assms(2) by simp
  show ?thesis
  proof (cases "length m' \<le> length (drop i b)")
    case False
    then have "length (drop i b) < length m'" by simp
    then have "take (length (drop i b)) (m' @ ss) = take (length (drop i b)) m'" by simp
    moreover have "take (length (drop i b)) (drop i b @ x) = drop i b" by simp
    ultimately have "drop i b = take (length (drop i b)) m'" using d by metis
    then have "prefix (drop i b) m'" by (metis take_is_prefix)
    then have "strict_prefix (drop i b) m'" using False by (auto simp add: strict_prefix_def)
    then show ?thesis by simp
  next
    case True
    have "take (length m') (drop i b @ x) = take (length m') (drop i b)" using True by simp
    moreover have "take (length m') (m' @ ss) = m'" by simp
    ultimately have "take (length m') (drop i b) = m'" using d by metis
    then obtain r where r: "drop i b = m' @ r" by (metis append_take_drop_id)
    have b: "b = take i b @ m' @ r" using r by (metis append_take_drop_id)
    show ?thesis
    proof (cases "r = []")
      case True
      then have "suffix m' b" using b by (metis append_Nil2 suffixI)
      moreover have "length m' = length b - i" using r True by (metis append_Nil2 length_drop)
      ultimately show ?thesis by simp
    next
      case False
      then have "butlast b = take i b @ m' @ butlast r"
        using b by (metis butlast_append append_is_Nil_conv)
      then have "sublist m' (butlast b)" by (metis sublist_appendI)
      then show ?thesis by simp
    qed
  qed
qed

lemma markers_nonempty: "m \<in> set (normal_markers delimiter) \<Longrightarrow> m \<noteq> []"
  by (auto simp add: normal_markers_def THINKING_OPEN_def split: option.splits if_splits)

lemma markers_head: "normal_markers delimiter = THINKING_OPEN # tl (normal_markers delimiter)"
  by (simp add: normal_markers_def)

lemma markers_tail_cases:
  "tl (normal_markers delimiter) = [] \<or> (\<exists>tc. tl (normal_markers delimiter) = [tc])"
  by (auto simp add: normal_markers_def split: option.splits)

lemma apart_no_nest:
  assumes "markers_apart delimiter" "m \<in> set (normal_markers delimiter)"
    "m' \<in> set (normal_markers delimiter)" "sublist m m'"
  shows "m = m'"
proof (rule ccontr)
  assume ne: "m \<noteq> m'"
  from markers_tail_cases [of delimiter] show False
  proof
    assume "tl (normal_markers delimiter) = []"
    then have "normal_markers delimiter = [THINKING_OPEN]"
      using markers_head [of delimiter] by simp
    then show False using assms(2,3) ne by simp
  next
    assume "\<exists>tc. tl (normal_markers delimiter) = [tc]"
    then obtain tc where tc: "tl (normal_markers delimiter) = [tc]" by blast
    then have ms: "normal_markers delimiter = [THINKING_OPEN, tc]"
      using markers_head [of delimiter] by simp
    from assms(1) tc have "\<not> sublist tc THINKING_OPEN" "\<not> sublist THINKING_OPEN tc"
      by (simp_all add: markers_apart_def)
    then show False using assms(2,3,4) ne ms by auto
  qed
qed

lemma partial_clean:
  assumes "markers_apart delimiter" "m \<in> set (normal_markers delimiter)"
    "strict_prefix b m" "m' \<in> set (normal_markers delimiter)"
  shows "\<not> sublist m' b"
proof
  assume s: "sublist m' b"
  from assms(3) have "sublist b m" by (simp add: strict_prefix_def prefix_imp_sublist)
  with s have "sublist m' m" by (rule sublist_order.order_trans)
  with assms have "m' = m" using apart_no_nest by blast
  with s have "length m \<le> length b" by (simp add: sublist_length_le)
  moreover from assms(3) have "length b < length m"
    by (metis prefix_length_less)
  ultimately show False by simp
qed

lemma visible_text_skip:
  "(\<forall>i<length u. \<not> list_ex (\<lambda>m. prefix m (drop i (u @ x))) (normal_markers delimiter)) \<Longrightarrow>
     visible_text delimiter (u @ x) = u @ visible_text delimiter x"
proof (induction u)
  case Nil
  then show ?case by simp
next
  case (Cons c u)
  from Cons.prems have z: "\<not> list_ex (\<lambda>m. prefix m ((c # u) @ x)) (normal_markers delimiter)"
    by (metis drop0 length_greater_0_conv list.distinct(1))
  then have a: "\<not> prefix THINKING_OPEN ((c # u) @ x)"
    and b: "\<not> list_ex (\<lambda>tc. prefix tc ((c # u) @ x)) (tl (normal_markers delimiter))"
    by (subst (asm) markers_head, simp)+
  have "\<forall>i<length u. \<not> list_ex (\<lambda>m. prefix m (drop i (u @ x))) (normal_markers delimiter)"
  proof (intro allI impI)
    fix i assume "i < length u"
    then have "Suc i < length (c # u)" by simp
    with Cons.prems have "\<not> list_ex (\<lambda>m. prefix m (drop (Suc i) ((c # u) @ x))) (normal_markers delimiter)"
      by blast
    then show "\<not> list_ex (\<lambda>m. prefix m (drop i (u @ x))) (normal_markers delimiter)" by simp
  qed
  from Cons.IH [OF this] have "visible_text delimiter (u @ x) = u @ visible_text delimiter x" .
  moreover have "visible_text delimiter ((c # u) @ x) = c # visible_text delimiter (u @ x)"
    using a b by (subst visible_text.simps) simp
  ultimately show ?case by simp
qed

lemma after_close_none: "\<not> sublist THINKING_CLOSE s \<Longrightarrow> after_close s = []"
proof (induction s)
  case Nil
  then show ?case by simp
next
  case (Cons c cs)
  then have "\<not> prefix THINKING_CLOSE (c # cs)" using prefix_imp_sublist by blast
  moreover have "\<not> sublist THINKING_CLOSE cs" using Cons.prems by (meson sublist_Cons_right)
  ultimately show ?case using Cons.IH by simp
qed

lemma after_close_skip:
  "(\<forall>i<length u. \<not> prefix THINKING_CLOSE (drop i (u @ THINKING_CLOSE @ x))) \<Longrightarrow>
     after_close (u @ THINKING_CLOSE @ x) = x"
proof (induction u)
  case Nil
  have "after_close (THINKING_CLOSE @ x) = x"
    by (simp add: THINKING_CLOSE_def)
  then show ?case by simp
next
  case (Cons c u)
  from Cons.prems have z: "\<not> prefix THINKING_CLOSE ((c # u) @ THINKING_CLOSE @ x)"
    by (metis drop0 length_greater_0_conv list.distinct(1))
  have "\<forall>i<length u. \<not> prefix THINKING_CLOSE (drop i (u @ THINKING_CLOSE @ x))"
  proof (intro allI impI)
    fix i assume "i < length u"
    then have "Suc i < length (c # u)" by simp
    with Cons.prems have "\<not> prefix THINKING_CLOSE (drop (Suc i) ((c # u) @ THINKING_CLOSE @ x))"
      by blast
    then show "\<not> prefix THINKING_CLOSE (drop i (u @ THINKING_CLOSE @ x))" by simp
  qed
  from Cons.IH [OF this] show ?case using z by simp
qed


lemma text_of_append [simp]: "text_of (xs @ ys) = text_of xs @ text_of ys"
  by (simp add: text_of_def)

lemma text_of_emit_text [simp]: "text_of (emitted (emit_text t st)) = text_of (emitted st) @ t"
  by (simp add: emit_text_def text_of_def)

lemma text_of_emit_thinking [simp]:
  "text_of (emitted (emit_thinking t st)) = text_of (emitted st)"
  by (simp add: emit_thinking_def text_of_def)

lemma emit_text_fields [simp]:
  "tc_start (emit_text t st) = tc_start st" "pmode (emit_text t st) = pmode st"
  "toolDone (emit_text t st) = toolDone st" "buf (emit_text t st) = buf st"
  by (simp_all add: emit_text_def)

lemma emit_thinking_fields [simp]:
  "tc_start (emit_thinking t st) = tc_start st" "pmode (emit_thinking t st) = pmode st"
  "toolDone (emit_thinking t st) = toolDone st" "buf (emit_thinking t st) = buf st"
  by (simp_all add: emit_thinking_def)

text \<open>No marker starts in the part of the buffer that NORMAL lets go.\<close>

lemma normal_released:
  assumes apart: "markers_apart delimiter"
    and clean: "\<forall>m\<in>set (normal_markers delimiter). \<not> sublist m (butlast b)"
    and b: "b = u @ k"
    and k: "(k \<in> set (normal_markers delimiter)) \<or>
            ((\<forall>m\<in>set (normal_markers delimiter). \<not> suffix m b) \<and>
             k = held (normal_markers delimiter) b)"
  shows "\<forall>i<length u. \<not> list_ex (\<lambda>m. prefix m (drop i (b @ rest))) (normal_markers delimiter)"
proof (intro allI impI notI)
  fix i
  assume i: "i < length u"
    and "list_ex (\<lambda>m. prefix m (drop i (b @ rest))) (normal_markers delimiter)"
  then obtain m' where m': "m' \<in> set (normal_markers delimiter)" "prefix m' (drop i (b @ rest))"
    by (auto simp add: list_ex_iff)
  have ib: "i < length b" using i b by simp
  have dk: "drop i b = drop i u @ k" using i b by simp
  from occurrence_cases [OF m'(2) ib] clean m'(1)
  consider (at_end) "suffix m' b" "length m' = length b - i" | (over) "strict_prefix (drop i b) m'"
    by blast
  then show False
  proof cases
    case at_end
    from k show False
    proof
      assume km: "k \<in> set (normal_markers delimiter)"
      have "suffix k b" using b by (simp add: suffixI)
      moreover have "length k < length m'" using at_end(2) b i by simp
      ultimately have "suffix k m'" using at_end(1)
        by (metis suffix_same_cases suffix_length_le linorder_not_le)
      then have "sublist k m'" by (rule suffix_imp_sublist)
      with apart km m'(1) have "k = m'" using apart_no_nest by blast
      with \<open>length k < length m'\<close> show False by simp
    next
      assume "(\<forall>m\<in>set (normal_markers delimiter). \<not> suffix m b) \<and>
             k = held (normal_markers delimiter) b"
      with at_end(1) m'(1) show False by blast
    qed
  next
    case over
    from k show False
    proof
      assume km: "k \<in> set (normal_markers delimiter)"
      have "sublist k (drop i b)" using dk by (metis sublist_appendI append_Nil2)
      moreover have "sublist (drop i b) m'"
        using over by (simp add: strict_prefix_def prefix_imp_sublist)
      ultimately have "sublist k m'" by (rule sublist_order.order_trans)
      with apart km m'(1) have "k = m'" using apart_no_nest by blast
      moreover have "length k \<le> length (drop i b)" using dk by simp
      moreover have "length (drop i b) < length m'" using over by (metis prefix_length_less)
      ultimately show False by simp
    next
      assume h: "(\<forall>m\<in>set (normal_markers delimiter). \<not> suffix m b) \<and>
             k = held (normal_markers delimiter) b"
      have "suffix (drop i b) b" by (rule suffix_drop)
      from held_longest [OF this m'(1) over]
      have "length (drop i b) \<le> length k" using h by simp
      moreover have "length (drop i b) = length (drop i u) + length k" using dk by simp
      moreover have "0 < length (drop i u)" using i by simp
      ultimately show False by simp
    qed
  qed
qed


lemma inv_clean:
  assumes "markers_apart delimiter" "parser_inv delimiter st" "pmode st = NORMAL" "\<not> toolDone st"
  shows "\<forall>m\<in>set (normal_markers delimiter). \<not> sublist m (buf st)"
proof
  fix m assume m: "m \<in> set (normal_markers delimiter)"
  from assms(2,3,4) have "buf st = [] \<or> (\<exists>k\<in>set (normal_markers delimiter). strict_prefix (buf st) k)"
    by (simp add: parser_inv_def)
  then show "\<not> sublist m (buf st)"
  proof
    assume "buf st = []"
    then show ?thesis using markers_nonempty [OF m] by simp
  next
    assume "\<exists>k\<in>set (normal_markers delimiter). strict_prefix (buf st) k"
    then obtain k where "k \<in> set (normal_markers delimiter)" "strict_prefix (buf st) k" by blast
    from partial_clean [OF assms(1) this m] show ?thesis .
  qed
qed

lemma visible_text_open:
  "visible_text delimiter (THINKING_OPEN @ rest) = visible_text delimiter (after_close rest)"
  by (subst visible_text.simps) (simp add: THINKING_OPEN_def)

lemma visible_text_trigger:
  assumes "markers_apart delimiter" "tl (normal_markers delimiter) = [tc]"
  shows "visible_text delimiter (tc @ rest) = []"
proof -
  from assms have ap: "\<not> sublist tc THINKING_OPEN" "\<not> sublist THINKING_OPEN tc"
    by (simp_all add: markers_apart_def)
  have ne: "tc \<noteq> []"
    using markers_nonempty [of tc delimiter] assms(2) markers_head [of delimiter]
    by (metis list.set_intros(1,2))
  have "\<not> prefix THINKING_OPEN (tc @ rest)"
  proof
    assume "prefix THINKING_OPEN (tc @ rest)"
    then have "prefix THINKING_OPEN tc \<or> prefix tc THINKING_OPEN"
      by (metis prefix_append prefix_same_cases prefixI)
    then show False using ap prefix_imp_sublist by blast
  qed
  then show ?thesis using assms(2) ne
    by (subst visible_text.simps) simp
qed

lemma step_normal:
  assumes apart: "markers_apart delimiter" and inv: "parser_inv delimiter st"
    and mode: "pmode st = NORMAL" "\<not> toolDone st"
  shows "parser_inv delimiter (feedChar jp st c) \<and>
     text_of (emitted (feedChar jp st c)) @ remaining_text delimiter (feedChar jp st c) rest =
       text_of (emitted st) @ remaining_text delimiter st (c # rest)"
proof -
  let ?ms = "normal_markers delimiter"
  let ?b = "buf st @ [c]"
  have tc: "tc_start st = delimiter" using inv by (simp add: parser_inv_def)
  have clean: "\<forall>m\<in>set ?ms. \<not> sublist m (butlast ?b)"
    using inv_clean [OF apart inv mode] by simp
  have rem: "remaining_text delimiter st (c # rest) = visible_text delimiter (?b @ rest)"
    using mode by (simp add: remaining_text_def)
  show ?thesis
  proof (cases "suffix THINKING_OPEN ?b")
    case True
    then obtain u where u: "?b = u @ THINKING_OPEN" by (auto simp add: suffix_def)
    have st': "feedChar jp st c = (emit_text u st)\<lparr> pmode := THINKING, buf := [] \<rparr>"
      using mode True u by (simp add: feedChar_def Let_def before_end_eq del: suffix_snoc)
    have "THINKING_OPEN \<in> set ?ms" by (subst markers_head) simp
    then have "\<forall>i<length u. \<not> list_ex (\<lambda>m. prefix m (drop i (?b @ rest))) ?ms"
      using normal_released [OF apart clean u] by blast
    then have "visible_text delimiter (u @ THINKING_OPEN @ rest)
        = u @ visible_text delimiter (THINKING_OPEN @ rest)"
      using visible_text_skip [of u "THINKING_OPEN @ rest" delimiter] u by simp
    then have "visible_text delimiter (?b @ rest) = u @ visible_text delimiter (after_close rest)"
      using u visible_text_open by (metis append.assoc)
    then show ?thesis unfolding st' rem using tc mode
      by (simp add: parser_inv_def remaining_text_def THINKING_CLOSE_def)
  next
    case no_open: False
    show ?thesis
    proof (cases "list_ex (\<lambda>tc. suffix tc ?b) (tl ?ms)")
      case True
      with markers_tail_cases [of delimiter] obtain tc where
        t: "tl ?ms = [tc]" "suffix tc ?b" by auto
      then obtain u where u: "?b = u @ tc" by (auto simp add: suffix_def)
      have st': "feedChar jp st c =
          (emit_text u st)\<lparr> pmode := TOOL_WAIT_INVOKE, buf := [], rawText := tc,
             textAtTrigger := textSoFar (emit_text u st) \<rparr>"
        using mode no_open True t u tc
        by (simp add: feedChar_def Let_def before_end_eq del: suffix_snoc)
      have "tc \<in> set ?ms" using t(1) markers_head [of delimiter] by (metis list.set_intros(1,2))
      then have "\<forall>i<length u. \<not> list_ex (\<lambda>m. prefix m (drop i (?b @ rest))) ?ms"
        using normal_released [OF apart clean u] by blast
      then have "visible_text delimiter (u @ tc @ rest) = u @ visible_text delimiter (tc @ rest)"
        using visible_text_skip [of u "tc @ rest" delimiter] u by simp
      then have "visible_text delimiter (?b @ rest) = u"
        using u visible_text_trigger [OF apart t(1)] by (metis append.assoc append_Nil2)
      then show ?thesis unfolding st' rem using tc mode
        by (simp add: parser_inv_def remaining_text_def)
    next
      case no_tc: False
      let ?h = "held ?ms ?b"
      let ?u = "before_end ?b ?h"
      have u: "?b = ?u @ ?h" using before_end_append [OF held_suffix] by metis
      have st': "feedChar jp st c = (emit_text ?u st)\<lparr> buf := ?h \<rparr>"
        using mode no_open no_tc tc by (simp add: feedChar_def Let_def del: suffix_snoc)
      have "\<forall>m\<in>set ?ms. \<not> suffix m ?b"
      proof
        fix m assume "m \<in> set ?ms"
        then have "m = THINKING_OPEN \<or> m \<in> set (tl ?ms)"
          using markers_head [of delimiter] by (metis set_ConsD)
        then show "\<not> suffix m ?b" using no_open no_tc by (auto simp add: list_ex_iff)
      qed
      then have "\<forall>i<length ?u. \<not> list_ex (\<lambda>m. prefix m (drop i (?b @ rest))) ?ms"
        using normal_released [OF apart clean u] by blast
      then have "visible_text delimiter (?u @ ?h @ rest) = ?u @ visible_text delimiter (?h @ rest)"
        using visible_text_skip [of ?u "?h @ rest" delimiter] u by (metis append.assoc)
      then have v: "visible_text delimiter (?b @ rest) = ?u @ visible_text delimiter (?h @ rest)"
        using u by (metis append.assoc)
      have "parser_inv delimiter ((emit_text ?u st)\<lparr> buf := ?h \<rparr>)"
        using held_partial [of ?ms ?b] tc mode by (simp add: parser_inv_def)
      then show ?thesis unfolding st' rem using v mode
        by (simp add: remaining_text_def)
    qed
  qed
qed

lemma step_thinking:
  assumes inv: "parser_inv delimiter st" and mode: "pmode st = THINKING" "\<not> toolDone st"
  shows "parser_inv delimiter (feedChar jp st c) \<and>
     text_of (emitted (feedChar jp st c)) @ remaining_text delimiter (feedChar jp st c) rest =
       text_of (emitted st) @ remaining_text delimiter st (c # rest)"
proof -
  let ?b = "buf st @ [c]"
  have tc: "tc_start st = delimiter" using inv by (simp add: parser_inv_def)
  have clean: "\<not> sublist THINKING_CLOSE (butlast ?b)"
    using inv mode by (simp add: parser_inv_def)
  have rem: "remaining_text delimiter st (c # rest)
      = visible_text delimiter (after_close (?b @ rest))"
    using mode by (simp add: remaining_text_def)
  show ?thesis
  proof (cases "suffix THINKING_CLOSE ?b")
    case True
    then obtain u where u: "?b = u @ THINKING_CLOSE" by (auto simp add: suffix_def)
    have st': "feedChar jp st c = (emit_thinking u st)\<lparr> pmode := NORMAL, buf := [] \<rparr>"
      using mode True u by (simp add: feedChar_def Let_def before_end_eq del: suffix_snoc)
    have "\<forall>i<length u. \<not> prefix THINKING_CLOSE (drop i (u @ THINKING_CLOSE @ rest))"
    proof (intro allI impI notI)
      fix i assume i: "i < length u"
        and p: "prefix THINKING_CLOSE (drop i (u @ THINKING_CLOSE @ rest))"
      have ib: "i < length ?b" using i u by (metis length_append trans_less_add1)
      from p have "prefix THINKING_CLOSE (drop i (?b @ rest))" using u by (metis append.assoc)
      from occurrence_cases [OF this ib] clean
      consider "suffix THINKING_CLOSE ?b" "length THINKING_CLOSE = length ?b - i"
        | "strict_prefix (drop i ?b) THINKING_CLOSE" by blast
      then show False
      proof cases
        case 1
        have "length ?b = length u + length THINKING_CLOSE" using u by (metis length_append)
        then show False using 1(2) i by simp
      next
        case 2
        then have "length (drop i ?b) < length THINKING_CLOSE" by (metis prefix_length_less)
        moreover have "length ?b = length u + length THINKING_CLOSE"
          using u by (metis length_append)
        ultimately show False using i by simp
      qed
    qed
    from after_close_skip [OF this] have "after_close (?b @ rest) = rest"
      using u by (metis append.assoc)
    then show ?thesis unfolding st' rem using tc mode
      by (simp add: parser_inv_def remaining_text_def THINKING_CLOSE_def)
  next
    case False
    have st': "feedChar jp st c = st\<lparr> buf := ?b \<rparr>"
      using mode False by (simp add: feedChar_def Let_def del: suffix_snoc)
    have "\<not> sublist THINKING_CLOSE ?b"
    proof
      assume "sublist THINKING_CLOSE ?b"
      then obtain ps ss where e: "?b = ps @ THINKING_CLOSE @ ss" by (auto simp add: sublist_def)
      show False
      proof (cases "ss = []")
        case True
        then have "suffix THINKING_CLOSE ?b" using e by (metis append_Nil2 suffixI)
        then show False using False by simp
      next
        case ne: False
        then have "butlast ?b = ps @ THINKING_CLOSE @ butlast ss"
          using e by (metis butlast_append append_is_Nil_conv)
        then have "sublist THINKING_CLOSE (butlast ?b)" by (metis sublist_appendI)
        then show False using clean by simp
      qed
    qed
    then show ?thesis unfolding st' rem using tc mode
      by (simp add: parser_inv_def remaining_text_def)
  qed
qed

lemma step_tool:
  assumes inv: "parser_inv delimiter st"
    and mode: "toolDone st \<or> (pmode st \<noteq> NORMAL \<and> pmode st \<noteq> THINKING)"
  shows "parser_inv delimiter (feedChar jp st c) \<and>
     text_of (emitted (feedChar jp st c)) = text_of (emitted st) \<and>
     (toolDone (feedChar jp st c) \<or>
      (pmode (feedChar jp st c) \<noteq> NORMAL \<and> pmode (feedChar jp st c) \<noteq> THINKING))"
proof (cases "toolDone st")
  case True
  then show ?thesis using inv by (simp add: feedChar_def)
next
  case False
  have tc: "tc_start st = delimiter" using inv by (simp add: parser_inv_def)
  from False mode show ?thesis
    by (cases "pmode st")
       (auto simp add: feedChar_def Let_def parser_inv_def tool_done_def text_of_def tc)
qed


lemma visible_text_nil [simp]: "visible_text delimiter [] = []"
  by (subst visible_text.simps) simp

lemma text_of_End [simp]: "text_of [End] = []"
  by (simp add: text_of_def)

lemma finish_text:
  assumes apart: "markers_apart delimiter" and inv: "parser_inv delimiter st"
  shows "text_of (emitted (parser_finish st)) = text_of (emitted st) @ remaining_text delimiter st []"
proof (cases "toolDone st")
  case True
  then show ?thesis by (simp add: parser_finish_def remaining_text_def text_of_def)
next
  case False
  show ?thesis
  proof (cases "pmode st")
    case NORMAL
    have clean: "\<forall>m\<in>set (normal_markers delimiter). \<not> sublist m (buf st)"
      using inv_clean [OF apart inv NORMAL False] .
    have "\<forall>i<length (buf st).
        \<not> list_ex (\<lambda>m. prefix m (drop i (buf st @ []))) (normal_markers delimiter)"
    proof (intro allI impI notI)
      fix i assume "list_ex (\<lambda>m. prefix m (drop i (buf st @ []))) (normal_markers delimiter)"
      then obtain m where m: "m \<in> set (normal_markers delimiter)" "prefix m (drop i (buf st))"
        by (auto simp add: list_ex_iff)
      then obtain ss where "drop i (buf st) = m @ ss" by (auto simp add: prefix_def)
      then have "buf st = take i (buf st) @ m @ ss" by (metis append_take_drop_id)
      then have "sublist m (buf st)" by (metis sublist_appendI)
      then show False using clean m(1) by blast
    qed
    from visible_text_skip [OF this] have "visible_text delimiter (buf st) = buf st" by simp
    then show ?thesis using False NORMAL
      by (simp add: parser_finish_def remaining_text_def)
  next
    case THINKING
    then have "\<not> sublist THINKING_CLOSE (buf st)"
      using inv False by (simp add: parser_inv_def)
    then have "after_close (buf st) = []" by (rule after_close_none)
    then show ?thesis using False THINKING
      by (simp add: parser_finish_def remaining_text_def)
  qed (use False in \<open>simp_all add: parser_finish_def remaining_text_def text_of_def\<close>)
qed

lemma run_text:
  "markers_apart delimiter \<Longrightarrow> parser_inv delimiter st \<Longrightarrow>
     text_of (emitted (parser_finish (foldl (feedChar jp) st input))) =
       text_of (emitted st) @ remaining_text delimiter st input"
proof (induction input arbitrary: st)
  case Nil
  then show ?case using finish_text by simp
next
  case (Cons c input)
  let ?st' = "feedChar jp st c"
  have step: "parser_inv delimiter ?st' \<and>
     text_of (emitted ?st') @ remaining_text delimiter ?st' input =
       text_of (emitted st) @ remaining_text delimiter st (c # input)"
  proof (cases "toolDone st \<or> (pmode st \<noteq> NORMAL \<and> pmode st \<noteq> THINKING)")
    case True
    from step_tool [OF Cons.prems(2) True, of jp c]
    have t: "parser_inv delimiter ?st'" "text_of (emitted ?st') = text_of (emitted st)"
      "toolDone ?st' \<or> (pmode ?st' \<noteq> NORMAL \<and> pmode ?st' \<noteq> THINKING)"
      by simp_all
    have "remaining_text delimiter st (c # input) = []"
      using True by (cases "pmode st") (auto simp add: remaining_text_def)
    moreover have "remaining_text delimiter ?st' input = []"
      using t(3) by (cases "pmode ?st'") (auto simp add: remaining_text_def)
    ultimately show ?thesis using t(1,2) by simp
  next
    case False
    then have nd: "\<not> toolDone st" and m: "pmode st = NORMAL \<or> pmode st = THINKING" by auto
    from m show ?thesis
    proof
      assume "pmode st = NORMAL"
      from step_normal [OF Cons.prems(1,2) this nd] show ?thesis .
    next
      assume "pmode st = THINKING"
      from step_thinking [OF Cons.prems(2) this nd] show ?thesis .
    qed
  qed
  from Cons.IH [OF Cons.prems(1) step [THEN conjunct1]]
  have "text_of (emitted (parser_finish (foldl (feedChar jp) ?st' input))) =
       text_of (emitted ?st') @ remaining_text delimiter ?st' input" .
  then show ?case using step by simp
qed

lemma no_open_in_tail:
  "CHR ''<'' \<notin> set x \<Longrightarrow> \<not> sublist ''<t'' (x @ ''>>'')"
proof (induction x)
  case Nil
  show ?case by (simp add: sublist_Cons_right)
next
  case (Cons a x)
  have "\<not> prefix ''<t'' (a # x @ ''>>'')" using Cons.prems by simp
  moreover have "\<not> sublist ''<t'' (x @ ''>>'')" using Cons by simp
  ultimately show ?case by (simp add: sublist_Cons_right del: prefix_code)
qed

lemma generated_trigger_apart:
  assumes "CHR ''<'' \<notin> set x"
  shows "markers_apart (Some (''<<CALL_'' @ x @ ''>>''))"
proof -
  let ?tc = "''<<CALL_'' @ x @ ''>>''"
  have "\<not> sublist ''<t'' ?tc"
    using no_open_in_tail [OF assms] by (simp add: sublist_Cons_right)
  moreover have "sublist ''<t'' THINKING_OPEN"
    by (simp add: THINKING_OPEN_def sublist_Cons_right)
  ultimately have a: "\<not> sublist THINKING_OPEN ?tc"
    using sublist_order.order_trans by blast
  have "sublist ''<<'' ?tc" by (simp add: sublist_Cons_right)
  moreover have "\<not> sublist ''<<'' THINKING_OPEN"
    by (simp add: THINKING_OPEN_def sublist_Cons_right)
  ultimately have b: "\<not> sublist ?tc THINKING_OPEN"
    using sublist_order.order_trans by blast
  show ?thesis using a b by (simp add: markers_apart_def normal_markers_def)
qed

lemma new_parser_inv: "parser_inv delimiter (new_parser delimiter)"
  by (simp add: parser_inv_def new_parser_def)

subsection \<open>The test input\<close>

lemma test_trigger_apart: "markers_apart (Some test_trigger)"
  by (simp add: markers_apart_def normal_markers_def test_trigger_def THINKING_OPEN_def
      sublist_Cons_right)

lemma test_input_visible: "visible_text (Some test_trigger) test_input = ''Thoughts...''"
  by (simp add: visible_text.simps test_trigger_def test_input_def THINKING_OPEN_def
      THINKING_CLOSE_def normal_markers_def)

lemma test_input_spans_removed:
  "spans_removed test_trigger test_input = ''Thoughts...'' @ [CHR 0x0A, CHR 0x0A]"
  by (simp add: spans_removed.simps test_trigger_def test_input_def THINKING_OPEN_def
      THINKING_CLOSE_def INVOKE_CLOSE_def)

subsection \<open>The text the parser emits\<close>

text \<open>
  On the input of the parser test the \<open>Text\<close> events hold \<open>Thoughts...\<close> and no more.
  The input without the trigger signal and without the span from \<open><invoke\<close> through
  \<open></invoke>\<close> still has the line feed after the trigger signal and the one after
  \<open></invoke>\<close>: the first is consumed in TOOL_WAIT_INVOKE, the second comes after the
  call, when upstream text is ignored.
\<close>

theorem parser_text_counterexample:
  "text_of (parse_events (\<lambda>s. None :: unit option) (Some test_trigger) test_input)
     = ''Thoughts...'' \<and>
   spans_removed test_trigger test_input = ''Thoughts...'' @ [CHR 0x0A, CHR 0x0A] \<and>
   text_of (parse_events (\<lambda>s. None :: unit option) (Some test_trigger) test_input)
     \<noteq> spans_removed test_trigger test_input"
proof -
  from run_text [OF test_trigger_apart new_parser_inv, of "\<lambda>s. None :: unit option" test_input]
  have "text_of (parse_events (\<lambda>s. None :: unit option) (Some test_trigger) test_input) =
      visible_text (Some test_trigger) test_input"
    by (simp add: parse_events_def consumeEvents_def remaining_text_def new_parser_def text_of_def)
  then show ?thesis using test_input_visible test_input_spans_removed by simp
qed

text \<open>
  C1, amended. For every character sequence fed to the parser and followed by
  \<open>finish\<close>, with a trigger signal that neither contains \<open><thinking>\<close> nor is part of
  it (or with none): the contents of the \<open>Text\<close> events, put together, are the input
  up to the first trigger signal that starts outside a thinking span, with every
  thinking span, from \<open><thinking>\<close> through the next \<open></thinking>\<close> or to the end of
  the input when it is not closed, removed. Nothing from the trigger signal on is
  text: not the white space after it, not the call, not what follows the call.
\<close>

theorem parser_text_is_visible_text:
  assumes "markers_apart delimiter"
  shows "text_of (parse_events json_parse delimiter input) = visible_text delimiter input"
  using run_text [OF assms new_parser_inv, of json_parse input]
  by (simp add: parse_events_def consumeEvents_def remaining_text_def new_parser_def text_of_def)

theorem parser_text_is_visible_text_witness:
  "markers_apart (Some test_trigger) \<and>
   text_of (parse_events (\<lambda>s. None :: unit option) (Some test_trigger) test_input)
     = ''Thoughts...''"
  using parser_text_is_visible_text [OF test_trigger_apart, of "\<lambda>s. None :: unit option" test_input]
    test_trigger_apart test_input_visible
  by simp

end
